theory Spec2Isabelle
  imports Main
begin

section \<open>The logger of logger.hpp, as a shallow embedding\<close>

text \<open>
  The C++ source has a lock-free stack of messages (\<open>lock_free::que\<close>), a background
  thread that drains it (\<open>Logger::get_it_done\<close>, \<open>Logger::dump_que\<close>) and an output
  stream that can be swapped (\<open>Logger::SetLogFile\<close>).  The embedding keeps the nodes of
  the stack in an explicit store, so that the pointer walks of \<open>get_tail\<close> and
  \<open>dump_que\<close> are modelled as written, and records everything the logger does to the
  outside world (lines written, messages on \<open>std::cerr\<close>, files closed, the stream
  mutex taken and released) in one chronological list of events.
\<close>

subsection \<open>Severity\<close>

text \<open>
  \<open>enum Severity { Trace = 0, Debug, Info, Error, SeverityNumber }\<close>.  A C++ enum
  variable can hold values that are no enumerator (logger.cpp constructs a logger with
  \<open>(log::Severity)10\<close>), and the source compares severities as numbers, so a severity
  is an integer.
\<close>

type_synonym Severity = int

definition Trace :: Severity where "Trace = 0"
definition Debug :: Severity where "Debug = 1"
definition Info :: Severity where "Info = 2"
definition Error :: Severity where "Error = 3"
definition SeverityNumber :: Severity where "SeverityNumber = 4"

definition severity_names :: "string list" where
  "severity_names = [''Trace'', ''Debug'', ''Info'', ''Error'']"

text \<open>
  \<open>severity_to_str\<close> returns \<open>severity_to_str [level]\<close> with no check.  A read outside
  the four entries of the table is undefined behaviour in C++; the model returns \<open>None\<close>
  there.
\<close>

definition severity_to_str :: "Severity \<Rightarrow> string option" where
  "severity_to_str level =
     (if 0 \<le> level \<and> level < int (length severity_names)
      then Some (severity_names ! nat level) else None)"

subsection \<open>Printing an integer\<close>

text \<open>\<open>std::cerr << level\<close> prints the severity as a decimal number.\<close>

fun show_nat :: "nat \<Rightarrow> string" where
  "show_nat n =
     (if n < 10 then [char_of (48 + n)]
      else show_nat (n div 10) @ [char_of (48 + n mod 10)])"

definition show_int :: "int \<Rightarrow> string" where
  "show_int i = (if i < 0 then CHR ''-'' # show_nat (nat (- i)) else show_nat (nat i))"

subsection \<open>Nodes, streams, events\<close>

type_synonym addr = nat

text \<open>
  \<open>lock_free::node\<close>: the message and the two links.  A null pointer is \<open>None\<close>.
  The message itself (\<open>shared_ptr<const char>\<close>) is immutable and owned by its node
  alone, so the node holds the string.
\<close>

record node =
  val :: string
  prev :: "addr option"
  "next" :: "addr option"

text \<open>An \<open>std::ofstream\<close>: the path it was constructed with and whether it is open.\<close>

record ofstream =
  fname :: string
  is_open :: bool

datatype dest = Console | File string

text \<open>What the logger does to the outside world, in the order it happens.\<close>

datatype event =
    Lock_stream             \<comment> \<open>\<open>log_stream_mutex\<close> acquired\<close>
  | Unlock_stream           \<comment> \<open>\<open>log_stream_mutex\<close> released\<close>
  | Line dest string        \<comment> \<open>\<open>stream << msg << std::endl\<close>\<close>
  | Dropped dest string     \<comment> \<open>an insertion that the stream does not carry out\<close>
  | Cerr string             \<comment> \<open>\<open>std::cerr << ... << std::endl\<close>\<close>
  | Closed string           \<comment> \<open>\<open>fout->flush(); fout->close()\<close> on the file of that path\<close>

text \<open>
  What the stream insertion inside \<open>Logger::write\<close> does: it writes the line; or it
  fails without throwing (the stream sets its error state and writes nothing, which is
  what a stream with the default exception mask does on every failure); or it throws an
  \<open>std::exception\<close> with the given \<open>what()\<close>; or it throws something else.  This is
  chosen by the environment, so it is an argument of the model.
\<close>

datatype outcome = WriteOk | Write_fails | Throws_std string | Throws_other

subsection \<open>The logger object\<close>

text \<open>
  The fields of \<open>class Logger\<close>, with the store of the nodes that \<open>que\<close> has allocated
  and not deleted.  \<open>brk\<close> is the next address \<open>new\<close> hands out; addresses are never
  reused, so an address below \<open>brk\<close> that is not in the store is a deleted node.
  \<open>worker\<close> says whether the \<open>std::thread*\<close> is non-null.
\<close>

record Logger =
  nodes :: "addr \<rightharpoonup> node"
  brk :: addr
  head :: "addr option"
  shutdown :: bool
  current_level :: Severity
  current_timeout :: int
  worker :: bool
  log_stream :: "ofstream option"
  events :: "event list"

definition emit :: "event list \<Rightarrow> Logger \<Rightarrow> Logger" where
  "emit es L = L\<lparr>events := events L @ es\<rparr>"

text \<open>\<open>Logger() = default\<close>: the member initialisers of the class.\<close>

definition Logger_default :: Logger where
  "Logger_default =
     \<lparr>nodes = Map.empty, brk = 0, head = None, shutdown = False,
      current_level = Debug, current_timeout = 2, worker = False,
      log_stream = None, events = []\<rparr>"

datatype exn = Runtime_error string

text \<open>\<open>Logger(int timeout, Severity level)\<close>: a throw is \<open>Inl\<close>.\<close>

definition Logger_ctor :: "int \<Rightarrow> Severity \<Rightarrow> exn + Logger" where
  "Logger_ctor timeout level =
     (if level < Trace \<or> Error < level then Inl (Runtime_error ''Log level is invalid'')
      else if timeout < 0 then Inl (Runtime_error ''timeout cannot be negative'')
      else Inr (Logger_default\<lparr>current_timeout := timeout, current_level := level\<rparr>))"

subsection \<open>The stack\<close>

text \<open>
  \<open>que::push\<close>: a new node whose \<open>next\<close> is the head that the successful
  compare-and-swap saw, then the head is the new node.  The retry loop of the source only
  repeats the read of the head; its effect is the one atomic step below.
\<close>

definition push :: "string \<Rightarrow> Logger \<Rightarrow> Logger" where
  "push pVal L =
     (let p = brk L in
      L\<lparr>nodes := (nodes L)(p \<mapsto> \<lparr>val = pVal, prev = None, next = head L\<rparr>),
        brk := Suc p,
        head := Some p\<rparr>)"

text \<open>\<open>que::dump_que\<close>: the head is exchanged with null and the old head returned.\<close>

definition que_dump_que :: "Logger \<Rightarrow> addr option \<times> Logger" where
  "que_dump_que L = (head L, L\<lparr>head := None\<rparr>)"

subsection \<open>Log\<close>

text \<open>
  \<open>Logger::Log\<close>.  \<open>ts\<close> is what \<open>datetime()\<close> returns at the call.  The result is
  \<open>None\<close> only if \<open>severity_to_str\<close> reads outside its table.
\<close>

definition Log_line :: "string \<Rightarrow> string \<Rightarrow> string \<Rightarrow> string" where
  "Log_line ts sev msg = ts @ '' '' @ sev @ '': '' @ msg"

definition Log :: "string \<Rightarrow> Severity \<Rightarrow> string \<Rightarrow> Logger \<Rightarrow> Logger option" where
  "Log ts level msg L =
     (if level < Trace \<or> Error < level \<or> msg = []
      then Some (emit [Cerr (''invalid parameters for Log function: '' @ show_int level
                             @ ''; '' @ msg)] L)
      else if level \<ge> current_level L
      then (case severity_to_str level of
              None \<Rightarrow> None
            | Some sev \<Rightarrow> Some (push (Log_line ts sev msg) L))
      else Some L)"

subsection \<open>Writing one line\<close>

text \<open>
  \<open>Logger::write\<close> (\<open>write\<close> is a keyword of Isabelle, hence the longer name), for
  the calls that return: a copy of \<open>log_stream\<close> is taken; if it is non-null and open
  the line goes to the file, otherwise to \<open>std::cout\<close>.  The state of the stream is not
  tested after the insertion, so an insertion that fails without throwing has no further
  effect.  Whatever the insertion throws is caught here and its text goes to
  \<open>std::cerr\<close>.  (The call that an exception leaves, because the insertion into
  \<open>std::cerr\<close> of a handler throws, is \<open>Logger_write_exn\<close> below.)
\<close>

definition Logger_write :: "outcome \<Rightarrow> string \<Rightarrow> Logger \<Rightarrow> Logger" where
  "Logger_write oc msg L =
     (case oc of
        WriteOk \<Rightarrow>
          (case log_stream L of
             Some tmp \<Rightarrow>
               if is_open tmp then emit [Line (File (fname tmp)) msg] L
               else emit [Line Console msg] L
           | None \<Rightarrow> emit [Line Console msg] L)
      | Write_fails \<Rightarrow>
          (case log_stream L of
             Some tmp \<Rightarrow>
               if is_open tmp then emit [Dropped (File (fname tmp)) msg] L
               else emit [Dropped Console msg] L
           | None \<Rightarrow> emit [Dropped Console msg] L)
      | Throws_std what \<Rightarrow> emit [Cerr what] L
      | Throws_other \<Rightarrow> emit [Cerr ''unknown exception on writing''] L)"

text \<open>The outcome of the next write, and the outcomes left after it.\<close>

definition next_outcome :: "outcome list \<Rightarrow> outcome" where
  "next_outcome ocs = (case ocs of [] \<Rightarrow> WriteOk | oc # _ \<Rightarrow> oc)"

subsection \<open>Draining a chain\<close>

text \<open>
  \<open>Logger::get_tail\<close>: \<open>while (p->next) { p->next->prev = p; p = p->next; }\<close>.
  Reading through a pointer that is no live node (null, or deleted) is undefined
  behaviour, and on a cyclic chain the loop does not end; both are the value \<open>None\<close>.
\<close>

partial_function (option) get_tail ::
  "(addr \<rightharpoonup> node) \<Rightarrow> addr \<Rightarrow> ((addr \<rightharpoonup> node) \<times> addr) option" where
  "get_tail h p =
     (case h p of
        None \<Rightarrow> None
      | Some n \<Rightarrow>
          (case next n of
             None \<Rightarrow> Some (h, p)
           | Some q \<Rightarrow>
               (case h q of
                  None \<Rightarrow> None
                | Some m \<Rightarrow> get_tail (h(q \<mapsto> m\<lparr>prev := Some p\<rparr>)) q)))"

text \<open>
  The loop of \<open>Logger::dump_que\<close>:
  \<open>while (p) { write(p->val.get()); tmp = p; p = p->prev; delete tmp; }\<close>.
\<close>

partial_function (option) dump_loop ::
  "outcome list \<Rightarrow> addr option \<Rightarrow> Logger \<Rightarrow> Logger option" where
  "dump_loop ocs p L =
     (case p of
        None \<Rightarrow> Some L
      | Some a \<Rightarrow>
          (case nodes L a of
             None \<Rightarrow> None
           | Some n \<Rightarrow>
               (let L1 = Logger_write (next_outcome ocs) (val n) L
                in dump_loop (tl ocs) (prev n) (L1\<lparr>nodes := (nodes L1)(a := None)\<rparr>))))"

text \<open>
  \<open>Logger::dump_que\<close>: nothing for a null chain; otherwise the tail is found, the
  stream mutex is taken (\<open>std::lock_guard\<close>), the loop runs, and the mutex is released
  when the guard goes out of scope.
\<close>

definition dump_que :: "outcome list \<Rightarrow> addr option \<Rightarrow> Logger \<Rightarrow> Logger option" where
  "dump_que ocs p L =
     (case p of
        None \<Rightarrow> Some L
      | Some a \<Rightarrow>
          (case get_tail (nodes L) a of
             None \<Rightarrow> None
           | Some (h, t) \<Rightarrow>
               (case dump_loop ocs (Some t) (emit [Lock_stream] (L\<lparr>nodes := h\<rparr>)) of
                  None \<Rightarrow> None
                | Some L1 \<Rightarrow> Some (emit [Unlock_stream] L1))))"

text \<open>
  The two lines that \<open>get_it_done\<close> has twice:
  \<open>p = This->que.dump_que(); This->dump_que(p);\<close>.
\<close>

definition drain :: "outcome list \<Rightarrow> Logger \<Rightarrow> Logger option" where
  "drain ocs L = (case que_dump_que L of (p, L1) \<Rightarrow> dump_que ocs p L1)"

subsection \<open>The output stream\<close>

text \<open>
  \<open>Logger::log_file_closer\<close>, the deleter of the stream, and the destructor of a
  \<open>shared_ptr\<close> that is the last owner of its stream.
\<close>

definition log_file_closer :: "ofstream \<Rightarrow> Logger \<Rightarrow> Logger" where
  "log_file_closer fout L = (if is_open fout then emit [Closed (fname fout)] L else L)"

definition release :: "ofstream option \<Rightarrow> Logger \<Rightarrow> Logger" where
  "release sp L = (case sp of None \<Rightarrow> L | Some fout \<Rightarrow> log_file_closer fout L)"

text \<open>
  \<open>Logger::SetLogFile\<close>.  \<open>opened\<close> is what \<open>is_open()\<close> says of the stream just
  constructed.  The pointer that holds the old stream after the swap (or the new one,
  when it could not be opened) is destroyed before the lock guard is.
\<close>

definition SetLogFile :: "string \<Rightarrow> bool \<Rightarrow> Logger \<Rightarrow> Logger" where
  "SetLogFile name opened L =
     (let L1 = emit [Lock_stream] L;
          L2 = (if name = []
                then release (log_stream L1) (L1\<lparr>log_stream := None\<rparr>)
                else (let fout = \<lparr>fname = name, is_open = opened\<rparr> in
                      if is_open fout
                      then release (log_stream L1) (L1\<lparr>log_stream := Some fout\<rparr>)
                      else release (Some fout)
                             (emit [Cerr (''cannot open log file '' @ [CHR 0x22] @ name)] L1)))
      in emit [Unlock_stream] L2)"

subsection \<open>A pass that an exception leaves\<close>

text \<open>
  What can be thrown: an \<open>std::exception\<close> with its \<open>what()\<close>, or something else.
\<close>

datatype thrown = Std_exception string | Other_exception

text \<open>
  One call of \<open>Logger::write\<close> in full.  The environment chooses what the insertion
  in the \<open>try\<close> block does and, for the case that a handler runs, what the insertion
  into \<open>std::cerr\<close> of that handler does: it returns (\<open>None\<close>) or it throws.  An
  exception thrown inside a handler leaves \<open>write\<close>.
\<close>

type_synonym wcall = "outcome \<times> thrown option"

definition throws :: "outcome \<Rightarrow> bool" where
  "throws oc =
     (case oc of
        WriteOk \<Rightarrow> False
      | Write_fails \<Rightarrow> False
      | Throws_std what \<Rightarrow> True
      | Throws_other \<Rightarrow> True)"

definition Logger_write_exn :: "wcall \<Rightarrow> string \<Rightarrow> Logger \<Rightarrow> thrown + Logger" where
  "Logger_write_exn c msg L =
     (case c of
        (oc, handler) \<Rightarrow>
          (case handler of
             None \<Rightarrow> Inr (Logger_write oc msg L)
           | Some x \<Rightarrow> if throws oc then Inl x else Inr (Logger_write oc msg L)))"

definition next_call :: "wcall list \<Rightarrow> wcall" where
  "next_call cs = (case cs of [] \<Rightarrow> (WriteOk, None) | c # _ \<Rightarrow> c)"

text \<open>
  The loop of \<open>Logger::dump_que\<close> again, with calls of \<open>write\<close> that an exception may
  leave.  The exception leaves the loop at once: the node at hand and the nodes not yet
  visited are neither written nor deleted.  The result says whether an exception is on
  its way out.
\<close>

partial_function (option) dump_loop_exn ::
  "wcall list \<Rightarrow> addr option \<Rightarrow> Logger \<Rightarrow> (thrown option \<times> Logger) option" where
  "dump_loop_exn cs p L =
     (case p of
        None \<Rightarrow> Some (None, L)
      | Some a \<Rightarrow>
          (case nodes L a of
             None \<Rightarrow> None
           | Some n \<Rightarrow>
               (case Logger_write_exn (next_call cs) (val n) L of
                  Inl x \<Rightarrow> Some (Some x, L)
                | Inr L1 \<Rightarrow>
                    dump_loop_exn (tl cs) (prev n) (L1\<lparr>nodes := (nodes L1)(a := None)\<rparr>))))"

text \<open>
  \<open>Logger::dump_que\<close> in full.  \<open>lock\<close> is what the constructor of the
  \<open>std::lock_guard\<close> does: it takes the mutex, or it throws.  When an exception leaves
  the loop, the guard is destroyed on the way out and the mutex released.
\<close>

definition dump_que_exn ::
  "thrown option \<Rightarrow> wcall list \<Rightarrow> addr option \<Rightarrow> Logger \<Rightarrow> (thrown option \<times> Logger) option" where
  "dump_que_exn lock cs p L =
     (case p of
        None \<Rightarrow> Some (None, L)
      | Some a \<Rightarrow>
          (case get_tail (nodes L) a of
             None \<Rightarrow> None
           | Some (h, t) \<Rightarrow>
               (case lock of
                  Some x \<Rightarrow> Some (Some x, L\<lparr>nodes := h\<rparr>)
                | None \<Rightarrow>
                    (case dump_loop_exn cs (Some t) (emit [Lock_stream] (L\<lparr>nodes := h\<rparr>)) of
                       None \<Rightarrow> None
                     | Some (e, L1) \<Rightarrow> Some (e, emit [Unlock_stream] L1)))))"

definition drain_exn ::
  "thrown option \<times> wcall list \<Rightarrow> Logger \<Rightarrow> (thrown option \<times> Logger) option" where
  "drain_exn env L =
     (case env of (lock, cs) \<Rightarrow>
        (case que_dump_que L of (p, L1) \<Rightarrow> dump_que_exn lock cs p L1))"

subsection \<open>The background thread\<close>

text \<open>
  What another thread does while the worker sleeps: a call of \<open>Log\<close>, a call of
  \<open>SetLogFile\<close>, or the \<open>shutdown.exchange(true)\<close> of \<open>ExitLogger\<close>.
\<close>

datatype other = OLog string Severity string | OSetLogFile string bool | OShutdown

fun other_step :: "other \<Rightarrow> Logger \<Rightarrow> Logger option" where
  "other_step (OLog ts level msg) L = Log ts level msg L"
| "other_step (OSetLogFile name opened) L = Some (SetLogFile name opened L)"
| "other_step OShutdown L = Some (L\<lparr>shutdown := True\<rparr>)"

fun sleep_for :: "other list \<Rightarrow> Logger \<Rightarrow> Logger option" where
  "sleep_for [] L = Some L"
| "sleep_for (x # xs) L =
     (case other_step x L of None \<Rightarrow> None | Some L1 \<Rightarrow> sleep_for xs L1)"

text \<open>
  One iteration of the loop of \<open>get_it_done\<close> as the environment sees it: what the
  other threads do during the sleep, what the lock guard of the pass does, and what the
  calls of \<open>write\<close> of the pass do.
\<close>

type_synonym round = "other list \<times> thrown option \<times> wcall list"

text \<open>
  How the thread function ends: the loop saw \<open>shutdown\<close> set and the last pass
  completed; or an exception left the \<open>try\<close> block and one of the two \<open>catch\<close>
  clauses reported it; or the insertion into \<open>std::cerr\<close> of that clause threw as
  well, so that an exception leaves the thread function and \<open>std::terminate\<close> ends
  the program.
\<close>

datatype ending = Left_loop | Caught thrown | Terminated thrown

definition report :: "thrown \<Rightarrow> string" where
  "report x =
     (case x of
        Std_exception what \<Rightarrow> what
      | Other_exception \<Rightarrow> ''unexpected error in background thread'')"

definition catch_clauses :: "thrown option \<Rightarrow> thrown \<Rightarrow> Logger \<Rightarrow> ending \<times> Logger" where
  "catch_clauses handler x L =
     (case handler of
        None \<Rightarrow> (Caught x, emit [Cerr (report x)] L)
      | Some y \<Rightarrow> (Terminated y, L))"

text \<open>
  The two lines after the loop, \<open>p = This->que.dump_que(); This->dump_que(p);\<close>,
  which are inside the \<open>try\<close> block as well.
\<close>

definition last_pass ::
  "thrown option \<Rightarrow> thrown option \<times> wcall list \<Rightarrow> Logger \<Rightarrow> (ending \<times> Logger) option" where
  "last_pass handler env L =
     (case drain_exn env L of
        None \<Rightarrow> None
      | Some (None, L1) \<Rightarrow> Some (Left_loop, L1)
      | Some (Some x, L1) \<Rightarrow> Some (catch_clauses handler x L1))"

text \<open>
  \<open>Logger::get_it_done\<close>.  The \<open>try\<close> block encloses the loop, so an exception that
  leaves \<open>dump_que\<close> ends the loop and the function.  \<open>handler\<close> is what the insertion
  into \<open>std::cerr\<close> of the \<open>catch\<close> clauses does.  The list gives one round for each
  iteration; the last pass takes the lock and the calls of the next round, if there is
  one.  The loop has no bound of its own: when the rounds are used up and \<open>shutdown\<close>
  is still false, the function has not returned, and the value is \<open>None\<close>.
\<close>

fun get_it_done :: "thrown option \<Rightarrow> round list \<Rightarrow> Logger \<Rightarrow> (ending \<times> Logger) option" where
  "get_it_done handler [] L =
     (if shutdown L = False then None else last_pass handler (None, []) L)"
| "get_it_done handler ((others, env) # rs) L =
     (if shutdown L = False
      then (case sleep_for others L of
              None \<Rightarrow> None
            | Some L1 \<Rightarrow>
                (case drain_exn env L1 of
                   None \<Rightarrow> None
                 | Some (None, L2) \<Rightarrow> get_it_done handler rs L2
                 | Some (Some x, L2) \<Rightarrow> Some (catch_clauses handler x L2)))
      else last_pass handler env L)"

subsection \<open>Starting and stopping\<close>

definition StartBackGroundThread :: "Logger \<Rightarrow> Logger" where
  "StartBackGroundThread L =
     (if \<not> worker L then L\<lparr>shutdown := False, worker := True\<rparr> else L)"

text \<open>
  \<open>Logger::ExitLogger\<close>: with a worker, \<open>shutdown\<close> is set and \<open>join\<close> waits for
  \<open>get_it_done\<close> to return; then the thread object is deleted and \<open>SetLogFile("")\<close>
  is called.  The argument gives the outcomes of the insertions of the last pass of the
  worker (the head of the list; the worker finds \<open>shutdown\<close> set and makes no other
  pass).  This is the call in which that pass completes: the lock guard takes the mutex
  and no handler throws.
\<close>

definition next_pass :: "outcome list list \<Rightarrow> outcome list" where
  "next_pass ocss = (case ocss of [] \<Rightarrow> [] | ocs # _ \<Rightarrow> ocs)"

definition quiet :: "outcome list \<Rightarrow> round" where
  "quiet ocs = ([], None, map (\<lambda>oc. (oc, None)) ocs)"

definition ExitLogger :: "outcome list list \<Rightarrow> Logger \<Rightarrow> Logger option" where
  "ExitLogger ocss L =
     (if worker L
      then (case get_it_done None (map quiet ocss) (L\<lparr>shutdown := True\<rparr>) of
              None \<Rightarrow> None
            | Some (e, L1) \<Rightarrow> Some (SetLogFile [] False (L1\<lparr>worker := False\<rparr>)))
      else Some L)"

subsection \<open>Runs\<close>

text \<open>
  A run of the program is a sequence of atomic actions: the calls of the public
  methods, by any thread, and \<open>ATick\<close>, one iteration of the loop of the background
  thread (which happens only while the thread exists and \<open>shutdown\<close> is false).
\<close>

datatype action =
    ALog string Severity string
  | ASetLogFile string bool
  | AStart
  | AExit "outcome list list"
  | ATick "outcome list"

fun exec :: "action \<Rightarrow> Logger \<Rightarrow> Logger option" where
  "exec (ALog ts level msg) L = Log ts level msg L"
| "exec (ASetLogFile name opened) L = Some (SetLogFile name opened L)"
| "exec AStart L = Some (StartBackGroundThread L)"
| "exec (AExit ocss) L = ExitLogger ocss L"
| "exec (ATick ocs) L = (if worker L \<and> shutdown L = False then drain ocs L else Some L)"

fun run :: "action list \<Rightarrow> Logger \<Rightarrow> Logger option" where
  "run [] L = Some L"
| "run (a # as) L = (case exec a L of None \<Rightarrow> None | Some L1 \<Rightarrow> run as L1)"

subsection \<open>Reading the events\<close>

text \<open>The lines written, with their destinations, and the messages on \<open>std::cerr\<close>.\<close>

fun lines :: "event list \<Rightarrow> (dest \<times> string) list" where
  "lines [] = []"
| "lines (Line d m # es) = (d, m) # lines es"
| "lines (_ # es) = lines es"

fun cerr :: "event list \<Rightarrow> string list" where
  "cerr [] = []"
| "cerr (Cerr m # es) = m # cerr es"
| "cerr (_ # es) = cerr es"

text \<open>Whether the stream mutex is held after the given events.\<close>

fun held :: "bool \<Rightarrow> event list \<Rightarrow> bool" where
  "held b [] = b"
| "held b (Lock_stream # es) = held True es"
| "held b (Unlock_stream # es) = held False es"
| "held b (_ # es) = held b es"

subsection \<open>Chains in the store\<close>

text \<open>
  \<open>chain h p as\<close>: following \<open>next\<close> from the pointer \<open>p\<close> visits the live nodes
  \<open>as\<close>, in this order, and then reaches null.  \<open>bchain h p as q\<close>: following \<open>prev\<close>
  from \<open>p\<close> visits \<open>as\<close> and then reaches the pointer \<open>q\<close>.
\<close>

fun chain :: "(addr \<rightharpoonup> node) \<Rightarrow> addr option \<Rightarrow> addr list \<Rightarrow> bool" where
  "chain h p [] = (p = None)"
| "chain h p (a # as) =
     (p = Some a \<and> (case h a of None \<Rightarrow> False | Some n \<Rightarrow> chain h (next n) as))"

fun bchain :: "(addr \<rightharpoonup> node) \<Rightarrow> addr option \<Rightarrow> addr list \<Rightarrow> addr option \<Rightarrow> bool" where
  "bchain h p [] q = (p = q)"
| "bchain h p (a # as) q =
     (p = Some a \<and> (case h a of None \<Rightarrow> False | Some n \<Rightarrow> bchain h (prev n) as q))"

text \<open>The messages and the backward links of the nodes at the given addresses.\<close>

definition val_at :: "(addr \<rightharpoonup> node) \<Rightarrow> addr \<Rightarrow> string" where
  "val_at h a = (case h a of None \<Rightarrow> [] | Some n \<Rightarrow> val n)"

definition prev_at :: "(addr \<rightharpoonup> node) \<Rightarrow> addr \<Rightarrow> addr option" where
  "prev_at h a = (case h a of None \<Rightarrow> None | Some n \<Rightarrow> prev n)"

definition vals :: "(addr \<rightharpoonup> node) \<Rightarrow> addr list \<Rightarrow> string list" where
  "vals h as = map (val_at h) as"

text \<open>
  The store after \<open>get_tail\<close> has walked from \<open>p\<close> over the nodes \<open>qs\<close> that follow
  it: each of them points back to the node before it.
\<close>

fun link_prev :: "(addr \<rightharpoonup> node) \<Rightarrow> addr \<Rightarrow> addr list \<Rightarrow> (addr \<rightharpoonup> node)" where
  "link_prev h p [] = h"
| "link_prev h p (q # qs) =
     (case h q of
        None \<Rightarrow> h
      | Some m \<Rightarrow> link_prev (h(q \<mapsto> m\<lparr>prev := Some p\<rparr>)) q qs)"

text \<open>
  The state of the stack between two operations: the head starts a chain \<open>as\<close> (newest
  node first) of distinct nodes that were handed out by \<open>new\<close>, no backward link is set,
  and the store holds these nodes and no others.
\<close>

definition wf_que :: "Logger \<Rightarrow> addr list \<Rightarrow> bool" where
  "wf_que L as =
     (chain (nodes L) (head L) as \<and> distinct as \<and> dom (nodes L) = set as \<and>
      (\<forall>a \<in> set as. a < brk L \<and> prev_at (nodes L) a = None))"

text \<open>The messages waiting in the stack, oldest first.\<close>

definition queued :: "Logger \<Rightarrow> addr list \<Rightarrow> string list" where
  "queued L as = rev (vals (nodes L) as)"

subsection \<open>What a pass writes\<close>

text \<open>
  The event of one call of \<open>Logger::write\<close>, and the events of one pass over the
  messages \<open>ms\<close>: one event for each message, in order.
\<close>

definition dest_of :: "ofstream option \<Rightarrow> dest" where
  "dest_of s =
     (case s of None \<Rightarrow> Console
      | Some f \<Rightarrow> if is_open f then File (fname f) else Console)"

definition write_event :: "ofstream option \<Rightarrow> outcome \<Rightarrow> string \<Rightarrow> event" where
  "write_event s oc msg =
     (case oc of
        WriteOk \<Rightarrow> Line (dest_of s) msg
      | Write_fails \<Rightarrow> Dropped (dest_of s) msg
      | Throws_std what \<Rightarrow> Cerr what
      | Throws_other \<Rightarrow> Cerr ''unknown exception on writing'')"

fun pass_events :: "ofstream option \<Rightarrow> outcome list \<Rightarrow> string list \<Rightarrow> event list" where
  "pass_events s ocs [] = []"
| "pass_events s ocs (m # ms) =
     write_event s (next_outcome ocs) m # pass_events s (tl ocs) ms"

definition pass_trace :: "ofstream option \<Rightarrow> outcome list \<Rightarrow> string list \<Rightarrow> event list" where
  "pass_trace s ocs ms =
     (if ms = [] then [] else [Lock_stream] @ pass_events s ocs ms @ [Unlock_stream])"

text \<open>The events of destroying the last pointer to a stream.\<close>

definition close_events :: "ofstream option \<Rightarrow> event list" where
  "close_events s =
     (case s of None \<Rightarrow> []
      | Some f \<Rightarrow> if is_open f then [Closed (fname f)] else [])"

subsection \<open>What a run accepts\<close>

text \<open>
  The lines of the records that the \<open>Log\<close> calls of a run hand to the stack, for the
  threshold \<open>T\<close>; whether no write of the run throws; whether the worker exists after
  the run.
\<close>

fun accepted :: "Severity \<Rightarrow> action list \<Rightarrow> string list" where
  "accepted T [] = []"
| "accepted T (ALog ts level msg # as) =
     (if Trace \<le> level \<and> level \<le> Error \<and> msg \<noteq> [] \<and> T \<le> level
      then Log_line ts (severity_names ! nat level) msg # accepted T as
      else accepted T as)"
| "accepted T (_ # as) = accepted T as"

text \<open>
  The bookkeeping of a run: the stack is well formed, and the lines written so far,
  followed by the messages still in the stack, are the messages \<open>ms\<close>.
\<close>

definition accounted :: "Logger \<Rightarrow> addr list \<Rightarrow> string list \<Rightarrow> bool" where
  "accounted L as ms = (wf_que L as \<and> map snd (lines (events L)) @ queued L as = ms)"

text \<open>Whether a run has no call of \<open>SetLogFile\<close>.\<close>

fun no_swap_action :: "action \<Rightarrow> bool" where
  "no_swap_action (ASetLogFile name opened) = False"
| "no_swap_action _ = True"

definition no_swap :: "action list \<Rightarrow> bool" where
  "no_swap as = list_all no_swap_action as"

fun faultless_action :: "action \<Rightarrow> bool" where
  "faultless_action (ATick ocs) = list_all (\<lambda>oc. oc = WriteOk) ocs"
| "faultless_action (AExit ocss) = list_all (list_all (\<lambda>oc. oc = WriteOk)) ocss"
| "faultless_action _ = True"

definition faultless :: "action list \<Rightarrow> bool" where
  "faultless as = list_all faultless_action as"

fun running_after :: "bool \<Rightarrow> action list \<Rightarrow> bool" where
  "running_after w [] = w"
| "running_after w (AStart # as) = running_after True as"
| "running_after w (AExit ocss # as) = running_after False as"
| "running_after w (_ # as) = running_after w as"

text \<open>
  Whether the stream mutex is released between any two lines written: \<open>b\<close> says that a
  line was written since the mutex was last released.
\<close>

fun released_between :: "bool \<Rightarrow> event list \<Rightarrow> bool" where
  "released_between b [] = True"
| "released_between b (Line d m # es) = (\<not> b \<and> released_between True es)"
| "released_between b (Unlock_stream # es) = released_between False es"
| "released_between b (_ # es) = released_between b es"

subsection \<open>Where an exception leaves a pass\<close>

text \<open>
  Whether an exception leaves a call of \<open>write\<close>; for a pass over \<open>n\<close> nodes, the
  exception that leaves it, if any, and the number of nodes written and deleted before;
  whether a round has a pass that completes; whether \<open>shutdown\<close> is set during a sleep
  of the rounds.
\<close>

definition leaves :: "wcall \<Rightarrow> bool" where
  "leaves c = (throws (fst c) \<and> snd c \<noteq> None)"

fun first_leave :: "wcall list \<Rightarrow> nat \<Rightarrow> thrown option" where
  "first_leave cs 0 = None"
| "first_leave [] (Suc n) = None"
| "first_leave (c # cs) (Suc n) = (if leaves c then snd c else first_leave cs n)"

fun done_before :: "wcall list \<Rightarrow> nat \<Rightarrow> nat" where
  "done_before cs 0 = 0"
| "done_before [] (Suc n) = Suc n"
| "done_before (c # cs) (Suc n) = (if leaves c then 0 else Suc (done_before cs n))"

text \<open>
  For a pass over the messages \<open>ms\<close> (oldest first): the exception that leaves it, and
  its events.  With an empty stack \<open>dump_que\<close> does nothing, so nothing throws.
\<close>

definition pass_thrown :: "thrown option \<Rightarrow> wcall list \<Rightarrow> nat \<Rightarrow> thrown option" where
  "pass_thrown lock cs n =
     (if n = 0 then None
      else (case lock of Some x \<Rightarrow> Some x | None \<Rightarrow> first_leave cs n))"

definition pass_trace_exn ::
  "ofstream option \<Rightarrow> thrown option \<Rightarrow> wcall list \<Rightarrow> string list \<Rightarrow> event list" where
  "pass_trace_exn s lock cs ms =
     (if ms = [] then []
      else (case lock of
              Some x \<Rightarrow> []
            | None \<Rightarrow>
                [Lock_stream]
                @ pass_events s (map fst cs) (take (done_before cs (length ms)) ms)
                @ [Unlock_stream]))"



section \<open>Properties\<close>

lemmas Severity_defs = Trace_def Debug_def Info_def Error_def SeverityNumber_def

declare show_nat.simps [simp del]

declare get_tail.simps [code]
declare dump_loop.simps [code]
declare dump_loop_exn.simps [code]

subsection \<open>Severities and construction\<close>

lemma severity_to_str_in_range:
  "Trace \<le> level \<Longrightarrow> level \<le> Error \<Longrightarrow>
   severity_to_str level = Some (severity_names ! nat level)"
  by (simp add: severity_to_str_def severity_names_def Severity_defs)

text \<open>
  Claim C8.  The constructor with a timeout and a level throws exactly when the level is
  below \<open>Trace\<close> or above \<open>Error\<close>, or the timeout is negative; in every other case it
  returns a logger that has the given level and timeout (with an empty stack and no
  worker).
\<close>

theorem Logger_ctor_fails_iff:
  "isl (Logger_ctor timeout level) = (level < Trace \<or> Error < level \<or> timeout < 0) \<and>
   (\<not> (level < Trace \<or> Error < level \<or> timeout < 0) \<longrightarrow>
      (\<exists>L. Logger_ctor timeout level = Inr L \<and> current_level L = level \<and>
           current_timeout L = timeout \<and> head L = None \<and> \<not> worker L))"
  by (simp add: Logger_ctor_def Logger_default_def)

theorem Logger_ctor_fails_iff_witness:
  "\<not> (Trace < Trace \<or> Error < Trace \<or> (0::int) < 0) \<and>
   \<not> isl (Logger_ctor 0 Trace) \<and>
   (\<exists>L. Logger_ctor 0 Trace = Inr L \<and> current_level L = Trace \<and> current_timeout L = 0) \<and>
   isl (Logger_ctor 50 10) \<and> isl (Logger_ctor (- 1) Info)"
  using Logger_ctor_fails_iff [of 0 Trace] Logger_ctor_fails_iff [of 50 10]
    Logger_ctor_fails_iff [of "- 1" Info]
  by (auto simp: Severity_defs)

text \<open>
  Claim C10.  \<open>severity_to_str\<close> reads its table without a check: the read is inside the
  four entries exactly for the levels from \<open>Trace\<close> to \<open>Error\<close>, and outside for every
  other level.  \<open>Log\<close> reaches the read only with a level it has checked, so no call of
  \<open>Log\<close> reads outside the table.
\<close>

theorem severity_to_str_index_in_bounds:
  "(Trace \<le> level \<and> level \<le> Error \<longrightarrow>
      nat level < length severity_names \<and>
      severity_to_str level = Some (severity_names ! nat level)) \<and>
   (severity_to_str level = None) = (level < Trace \<or> Error < level) \<and>
   Log ts level msg L \<noteq> None"
  by (auto simp: severity_to_str_def severity_names_def Severity_defs Log_def
           split: option.splits)

theorem severity_to_str_index_in_bounds_witness:
  "Trace \<le> Info \<and> Info \<le> Error \<and> severity_to_str Info = Some ''Info'' \<and>
   severity_to_str SeverityNumber = None \<and>
   Log ''ts'' Info ''m'' Logger_default \<noteq> None"
  using severity_to_str_index_in_bounds [of Info "''ts''" "''m''" Logger_default]
    severity_to_str_index_in_bounds [of SeverityNumber "''ts''" "''m''" Logger_default]
  by (simp add: Severity_defs severity_names_def)

subsection \<open>Rejected calls\<close>

text \<open>
  Claim C7.  A call of \<open>Log\<close> whose level is outside \<open>Trace .. Error\<close> or whose text is
  empty returns normally, writes one message to \<open>std::cerr\<close> and changes nothing else
  of the logger: no node is pushed.
\<close>

theorem Log_invalid_rejected:
  assumes "level < Trace \<or> Error < level \<or> msg = []"
  shows "Log ts level msg L =
           Some (L\<lparr>events := events L @
                   [Cerr (''invalid parameters for Log function: '' @ show_int level
                          @ ''; '' @ msg)]\<rparr>)"
  using assms by (simp add: Log_def emit_def)

theorem Log_invalid_rejected_witness:
  "(7 < Trace \<or> Error < 7 \<or> ''x'' = []) \<and>
   Log ''ts'' 7 ''x'' Logger_default =
     Some (Logger_default\<lparr>events := [Cerr ''invalid parameters for Log function: 7; x'']\<rparr>) \<and>
   (Info < Trace \<or> Error < Info \<or> [] = ([]::string)) \<and>
   map_option head (Log ''ts'' Info [] Logger_default) = Some None"
proof -
  have a: "7 < Trace \<or> Error < 7 \<or> ''x'' = []" by (simp add: Severity_defs)
  have b: "Info < Trace \<or> Error < Info \<or> [] = ([]::string)" by simp
  have s: "show_int 7 = ''7''" by code_simp
  show ?thesis
    using a b Log_invalid_rejected [OF a, of "''ts''" Logger_default]
      Log_invalid_rejected [OF b, of "''ts''" Logger_default]
    by (simp add: s Logger_default_def)
qed

text \<open>
  Claim C6.  When \<open>SetLogFile\<close> is called with a non-empty path and the stream cannot be
  opened, the call returns normally, \<open>log_stream\<close> is what it was before (the previous
  stream, or none), and the only effects are the mutex taken and released and one message
  on \<open>std::cerr\<close>.
\<close>

theorem SetLogFile_open_fails:
  assumes "name \<noteq> []"
  shows "SetLogFile name False L =
           L\<lparr>events := events L @
               [Lock_stream, Cerr (''cannot open log file '' @ [CHR 0x22] @ name),
                Unlock_stream]\<rparr>"
  using assms
  by (simp add: SetLogFile_def Let_def release_def log_file_closer_def emit_def)

theorem SetLogFile_open_fails_witness:
  "''/no/dir/f'' \<noteq> [] \<and>
   log_stream (SetLogFile ''/no/dir/f'' False (SetLogFile ''a.txt'' True Logger_default)) =
     Some \<lparr>fname = ''a.txt'', is_open = True\<rparr> \<and>
   log_stream (SetLogFile ''/no/dir/f'' False Logger_default) = None \<and>
   cerr (events (SetLogFile ''/no/dir/f'' False Logger_default)) =
     [''cannot open log file '' @ [CHR 0x22] @ ''/no/dir/f'']"
proof -
  have n: "''/no/dir/f'' \<noteq> []" by simp
  have 1: "log_stream (SetLogFile ''a.txt'' True Logger_default) =
             Some \<lparr>fname = ''a.txt'', is_open = True\<rparr>"
    by (simp add: SetLogFile_def Let_def release_def emit_def Logger_default_def)
  have 2: "log_stream (SetLogFile ''/no/dir/f'' False (SetLogFile ''a.txt'' True Logger_default))
             = log_stream (SetLogFile ''a.txt'' True Logger_default)"
    by (simp add: SetLogFile_open_fails [OF n])
  have 3: "log_stream (SetLogFile ''/no/dir/f'' False Logger_default) = None"
    by (simp add: SetLogFile_open_fails [OF n]) (simp add: Logger_default_def)
  have 4: "cerr (events (SetLogFile ''/no/dir/f'' False Logger_default)) =
             [''cannot open log file '' @ [CHR 0x22] @ ''/no/dir/f'']"
    by (simp add: SetLogFile_open_fails [OF n]) (simp add: Logger_default_def)
  from n 1 2 3 4 show ?thesis by (simp only: simp_thms)
qed

subsection \<open>The pointer walks\<close>

lemma chain_upd_other:
  "q \<notin> set as \<Longrightarrow> chain (h(q \<mapsto> m)) p as = chain h p as"
  by (induction as arbitrary: p) (auto split: option.splits)

lemma bchain_upd_other:
  "q \<notin> set as \<Longrightarrow> bchain (h(q := x)) p as r = bchain h p as r"
  by (induction as arbitrary: p) (auto split: option.splits)

lemma bchain_append:
  "bchain h p (xs @ ys) r = (\<exists>q. bchain h p xs q \<and> bchain h q ys r)"
  by (induction xs arbitrary: p) (auto split: option.splits)

lemma get_tail_chain:
  "chain h (Some a) (a # as) \<Longrightarrow> distinct (a # as) \<Longrightarrow>
   get_tail h a = Some (link_prev h a as, last (a # as))"
proof (induction as arbitrary: h a)
  case Nil
  then show ?case
    by (subst get_tail.simps) (auto split: option.splits)
next
  case (Cons b bs)
  from Cons.prems obtain n m where
    n: "h a = Some n" "next n = Some b" and m: "h b = Some m" and
    rest: "chain h (next m) bs"
    by (auto split: option.splits)
  let ?h = "h(b \<mapsto> m\<lparr>prev := Some a\<rparr>)"
  from Cons.prems have nb: "b \<notin> set bs" and ab: "a \<noteq> b" by auto
  have "chain ?h (Some b) (b # bs)"
    using rest nb by (simp add: chain_upd_other)
  moreover have "distinct (b # bs)" using Cons.prems by simp
  ultimately have "get_tail ?h b = Some (link_prev ?h b bs, last (b # bs))"
    by (rule Cons.IH)
  moreover have "get_tail h a = get_tail ?h b"
    by (subst get_tail.simps) (simp add: n m)
  ultimately show ?case by (simp add: m)
qed

lemma link_prev_other:
  "x \<notin> set qs \<Longrightarrow> link_prev h p qs x = h x"
  by (induction qs arbitrary: h p) (auto split: option.splits)

lemma val_at_upd_prev:
  "h q = Some m \<Longrightarrow> val_at (h(q \<mapsto> m\<lparr>prev := r\<rparr>)) x = val_at h x"
  by (simp add: val_at_def)

lemma link_prev_val:
  "val_at (link_prev h p qs) x = val_at h x"
proof (induction qs arbitrary: h p)
  case Nil
  show ?case by simp
next
  case (Cons q qs)
  show ?case
  proof (cases "h q")
    case None
    then show ?thesis by simp
  next
    case (Some m)
    have "val_at (link_prev (h(q \<mapsto> m\<lparr>prev := Some p\<rparr>)) q qs) x =
          val_at (h(q \<mapsto> m\<lparr>prev := Some p\<rparr>)) x"
      by (rule Cons.IH)
    also have "\<dots> = val_at h x" using Some by (rule val_at_upd_prev)
    finally show ?thesis by (simp only: link_prev.simps Some option.case)
  qed
qed

lemma link_prev_dom:
  "dom (link_prev h p qs) = dom h"
proof (induction qs arbitrary: h p)
  case Nil
  show ?case by simp
next
  case (Cons q qs)
  show ?case
  proof (cases "h q")
    case None
    then show ?thesis by simp
  next
    case (Some m)
    have "dom (link_prev (h(q \<mapsto> m\<lparr>prev := Some p\<rparr>)) q qs) =
          dom (h(q \<mapsto> m\<lparr>prev := Some p\<rparr>))"
      by (rule Cons.IH)
    also have "\<dots> = dom h" using Some by auto
    finally show ?thesis by (simp only: link_prev.simps Some option.case)
  qed
qed

lemma link_prev_bchain:
  "chain h (Some a) (a # as) \<Longrightarrow> distinct (a # as) \<Longrightarrow>
   bchain (link_prev h a as) (Some (last (a # as))) (rev (a # as)) (prev_at h a)"
proof (induction as arbitrary: h a)
  case Nil
  then show ?case by (auto simp: prev_at_def split: option.splits)
next
  case (Cons b bs)
  from Cons.prems obtain n m where
    n: "h a = Some n" "next n = Some b" and m: "h b = Some m" and
    rest: "chain h (next m) bs"
    by (auto split: option.splits)
  let ?h = "h(b \<mapsto> m\<lparr>prev := Some a\<rparr>)"
  let ?k = "link_prev ?h b bs"
  from Cons.prems have nb: "b \<notin> set bs" and ab: "a \<noteq> b" and na: "a \<notin> set bs" by auto
  have "chain ?h (Some b) (b # bs)"
    using rest nb by (simp add: chain_upd_other)
  moreover have "distinct (b # bs)" using Cons.prems by simp
  ultimately have "bchain ?k (Some (last (b # bs))) (rev (b # bs)) (prev_at ?h b)"
    by (rule Cons.IH)
  then have 1: "bchain ?k (Some (last (b # bs))) (rev (b # bs)) (Some a)"
    by (simp add: prev_at_def)
  have "?k a = h a" using na ab by (simp add: link_prev_other)
  then have 2: "bchain ?k (Some a) [a] (prev_at h a)"
    by (simp add: n prev_at_def)
  have "bchain ?k (Some (last (b # bs))) (rev (b # bs) @ [a]) (prev_at h a)"
    using 1 2 by (subst bchain_append) blast
  then show ?case by (simp add: m)
qed

lemma Logger_write_eq:
  "Logger_write oc msg L = emit [write_event (log_stream L) oc msg] L"
  by (simp add: Logger_write_def write_event_def dest_of_def
           split: outcome.splits option.splits)

lemma dump_loop_bchain:
  "bchain (nodes L) p bs None \<Longrightarrow> distinct bs \<Longrightarrow>
   dump_loop ocs p L =
     Some (L\<lparr>nodes := nodes L |` (- set bs),
             events := events L @ pass_events (log_stream L) ocs (vals (nodes L) bs)\<rparr>)"
proof (induction bs arbitrary: p L ocs)
  case Nil
  then show ?case by (subst dump_loop.simps) (simp add: vals_def restrict_map_def)
next
  case (Cons a bs)
  from Cons.prems obtain n where
    p: "p = Some a" and n: "nodes L a = Some n" and
    rest: "bchain (nodes L) (prev n) bs None"
    by (auto split: option.splits)
  from Cons.prems have na: "a \<notin> set bs" and d: "distinct bs" by auto
  let ?e = "write_event (log_stream L) (next_outcome ocs) (val n)"
  let ?L = "L\<lparr>events := events L @ [?e], nodes := (nodes L)(a := None)\<rparr>"
  have "bchain (nodes ?L) (prev n) bs None"
    using rest na by (simp add: bchain_upd_other)
  from Cons.IH [OF this d]
  have IH: "dump_loop (tl ocs) (prev n) ?L =
     Some (?L\<lparr>nodes := nodes ?L |` (- set bs),
             events := events ?L @ pass_events (log_stream ?L) (tl ocs) (vals (nodes ?L) bs)\<rparr>)" .
  have v: "vals ((nodes L)(a := None)) bs = vals (nodes L) bs"
    using na by (auto simp: vals_def val_at_def)
  have v': "vals (nodes L) (a # bs) = val n # vals (nodes L) bs"
    by (simp add: vals_def val_at_def n)
  have r: "((nodes L)(a := None)) |` (- set bs) = nodes L |` (- insert a (set bs))"
    by (auto simp: restrict_map_def fun_eq_iff)
  have "dump_loop ocs p L = dump_loop (tl ocs) (prev n) ?L"
    by (subst dump_loop.simps) (simp add: p n Logger_write_eq emit_def Let_def)
  with IH show ?case
    by (simp add: v v' r del: restrict_fun_upd)
qed

subsection \<open>One pass over a well-formed stack\<close>

lemma vals_rev: "vals h (rev as) = rev (vals h as)"
  by (simp add: vals_def rev_map)

lemma vals_link_prev: "vals (link_prev h p qs) as = vals h as"
  by (simp add: vals_def link_prev_val)

lemma link_prev_restrict:
  "set qs \<subseteq> A \<Longrightarrow> link_prev h p qs |` (- A) = h |` (- A)"
proof (rule ext)
  fix x
  assume s: "set qs \<subseteq> A"
  show "(link_prev h p qs |` (- A)) x = (h |` (- A)) x"
  proof (cases "x \<in> A")
    case True
    then show ?thesis by (simp add: restrict_map_def)
  next
    case False
    with s have "x \<notin> set qs" by blast
    then show ?thesis by (simp add: restrict_map_def link_prev_other)
  qed
qed

lemma dump_que_chain:
  assumes c: "chain (nodes L) (Some a) (a # as)" and d: "distinct (a # as)"
    and p: "prev_at (nodes L) a = None"
  shows "dump_que ocs (Some a) L =
     Some (L\<lparr>nodes := nodes L |` (- set (a # as)),
             events := events L @ [Lock_stream]
               @ pass_events (log_stream L) ocs (rev (vals (nodes L) (a # as)))
               @ [Unlock_stream]\<rparr>)"
proof -
  let ?h = "link_prev (nodes L) a as"
  let ?t = "last (a # as)"
  let ?L = "emit [Lock_stream] (L\<lparr>nodes := ?h\<rparr>)"
  have g: "get_tail (nodes L) a = Some (?h, ?t)"
    using c d by (rule get_tail_chain)
  have "bchain ?h (Some ?t) (rev (a # as)) (prev_at (nodes L) a)"
    using c d by (rule link_prev_bchain)
  then have b: "bchain (nodes ?L) (Some ?t) (rev (a # as)) None"
    by (simp add: p emit_def)
  have d': "distinct (rev (a # as))" using d by simp
  have r: "?h |` (- set (a # as)) = nodes L |` (- set (a # as))"
    by (rule link_prev_restrict) auto
  have "dump_loop ocs (Some ?t) ?L =
     Some (?L\<lparr>nodes := nodes ?L |` (- set (rev (a # as))),
             events := events ?L @ pass_events (log_stream ?L) ocs (vals (nodes ?L) (rev (a # as)))\<rparr>)"
    using b d' by (rule dump_loop_bchain)
  also have "nodes ?L |` (- set (rev (a # as))) = nodes L |` (- set (a # as))"
    using r by (simp add: emit_def)
  also have "vals (nodes ?L) (rev (a # as)) = rev (vals (nodes L) (a # as))"
    by (simp add: emit_def vals_link_prev) (simp add: vals_def rev_map)
  finally have l: "dump_loop ocs (Some ?t) ?L =
     Some (?L\<lparr>nodes := nodes L |` (- set (a # as)),
             events := events ?L @ pass_events (log_stream ?L) ocs (rev (vals (nodes L) (a # as)))\<rparr>)" .
  have "dump_que ocs (Some a) L =
          (case dump_loop ocs (Some ?t) ?L of
             None \<Rightarrow> None
           | Some L1 \<Rightarrow> Some (emit [Unlock_stream] L1))"
    by (simp only: dump_que_def g option.case prod.case)
  also have "\<dots> = Some (emit [Unlock_stream]
       (?L\<lparr>nodes := nodes L |` (- set (a # as)),
           events := events ?L @ pass_events (log_stream ?L) ocs (rev (vals (nodes L) (a # as)))\<rparr>))"
    by (simp only: l option.case)
  also have "\<dots> = Some (L\<lparr>nodes := nodes L |` (- set (a # as)),
             events := events L @ [Lock_stream]
               @ pass_events (log_stream L) ocs (rev (vals (nodes L) (a # as)))
               @ [Unlock_stream]\<rparr>)"
    by (simp add: emit_def)
  finally show ?thesis .
qed

lemma wf_que_Nil: "wf_que L [] = (head L = None \<and> nodes L = Map.empty)"
  by (auto simp: wf_que_def)

lemma wf_que_Cons_head:
  "wf_que L (a # as) \<Longrightarrow>
   head L = Some a \<and> chain (nodes L) (Some a) (a # as) \<and> distinct (a # as) \<and>
   prev_at (nodes L) a = None \<and> nodes L |` (- set (a # as)) = Map.empty"
  by (auto simp: wf_que_def restrict_map_def fun_eq_iff)

lemma drain_wf:
  assumes "wf_que L as"
  shows "drain ocs L =
     Some (L\<lparr>head := None, nodes := Map.empty,
             events := events L @ pass_trace (log_stream L) ocs (queued L as)\<rparr>)"
proof (cases as)
  case Nil
  with assms have "head L = None" "nodes L = Map.empty" by (simp_all add: wf_que_Nil)
  then show ?thesis
    by (simp add: drain_def que_dump_que_def dump_que_def pass_trace_def queued_def vals_def Nil)
next
  case (Cons a bs)
  with assms have w: "wf_que L (a # bs)" by simp
  let ?L = "L\<lparr>head := None\<rparr>"
  from wf_que_Cons_head [OF w]
  have h: "head L = Some a" and c: "chain (nodes ?L) (Some a) (a # bs)"
    and d: "distinct (a # bs)" and p: "prev_at (nodes ?L) a = None"
    and r: "nodes L |` (- set (a # bs)) = Map.empty"
    by simp_all
  have q: "queued L as \<noteq> []" by (simp add: queued_def vals_def Cons)
  show ?thesis
    using dump_que_chain [OF c d p, of ocs] h r q
    by (simp add: drain_def que_dump_que_def pass_trace_def queued_def Cons)
qed

lemma wf_que_push:
  assumes "wf_que L as"
  shows "wf_que (push v L) (brk L # as)"
proof -
  from assms have fresh: "brk L \<notin> set as" by (auto simp: wf_que_def)
  from assms have c: "chain (nodes L) (head L) as" by (simp add: wf_que_def)
  have "chain ((nodes L)(brk L \<mapsto> \<lparr>val = v, prev = None, next = head L\<rparr>)) (head L) as"
    using c fresh by (simp add: chain_upd_other)
  with assms fresh show ?thesis
    by (auto simp: wf_que_def push_def Let_def prev_at_def)
qed

lemma queued_push:
  assumes "wf_que L as"
  shows "queued (push v L) (brk L # as) = queued L as @ [v]"
proof -
  from assms have fresh: "brk L \<notin> set as" by (auto simp: wf_que_def)
  then show ?thesis
    by (auto simp: queued_def vals_def val_at_def push_def Let_def)
qed

subsection \<open>Lines written and frames\<close>

lemma lines_append: "lines (xs @ ys) = lines xs @ lines ys"
  by (induction xs rule: lines.induct) simp_all


lemma cerr_append: "cerr (xs @ ys) = cerr xs @ cerr ys"
  by (induction xs rule: cerr.induct) simp_all


lemma next_outcome_ok:
  "list_all (\<lambda>oc. oc = WriteOk) ocs \<Longrightarrow> next_outcome ocs = WriteOk"
  by (cases ocs) (simp_all add: next_outcome_def)


lemma tl_ok:
  "list_all (\<lambda>oc. oc = WriteOk) ocs \<Longrightarrow> list_all (\<lambda>oc. oc = WriteOk) (tl ocs)"
  by (cases ocs) simp_all


lemma lines_pass_events_ok:
  "list_all (\<lambda>oc. oc = WriteOk) ocs \<Longrightarrow>
   lines (pass_events s ocs ms) = map (Pair (dest_of s)) ms"
  by (induction ms arbitrary: ocs) (simp_all add: next_outcome_ok tl_ok write_event_def)


lemma lines_pass_trace_ok:
  "list_all (\<lambda>oc. oc = WriteOk) ocs \<Longrightarrow>
   lines (pass_trace s ocs ms) = map (Pair (dest_of s)) ms"
  by (simp add: pass_trace_def lines_append lines_pass_events_ok)


lemma release_eq: "release s L = emit (close_events s) L"
  by (simp add: release_def close_events_def log_file_closer_def emit_def
           split: option.splits)


lemma SetLogFile_empty:
  "SetLogFile [] opened L =
     L\<lparr>log_stream := None,
       events := events L @ [Lock_stream] @ close_events (log_stream L) @ [Unlock_stream]\<rparr>"
  by (simp add: SetLogFile_def Let_def release_eq emit_def)


lemma SetLogFile_frame:
  "nodes (SetLogFile name opened L) = nodes L \<and>
   head (SetLogFile name opened L) = head L \<and>
   brk (SetLogFile name opened L) = brk L \<and>
   worker (SetLogFile name opened L) = worker L \<and>
   shutdown (SetLogFile name opened L) = shutdown L \<and>
   current_level (SetLogFile name opened L) = current_level L \<and>
   lines (events (SetLogFile name opened L)) = lines (events L)"
  by (simp add: SetLogFile_def Let_def release_eq emit_def close_events_def lines_append
           split: option.splits)


lemma drain_wf_frame:
  assumes "wf_que L as"
  shows "\<exists>L'. drain ocs L = Some L' \<and> wf_que L' [] \<and>
           events L' = events L @ pass_trace (log_stream L) ocs (queued L as) \<and>
           shutdown L' = shutdown L \<and> worker L' = worker L \<and>
           current_level L' = current_level L \<and> log_stream L' = log_stream L \<and>
           brk L' = brk L"
  by (simp add: drain_wf [OF assms] wf_que_Nil)

subsection \<open>A pass that an exception leaves\<close>

lemma Logger_write_exn_returns:
  "\<not> leaves c \<Longrightarrow> Logger_write_exn c msg L = Inr (Logger_write (fst c) msg L)"
  by (cases c) (auto simp: Logger_write_exn_def leaves_def split: option.splits)

lemma Logger_write_exn_leaves:
  "leaves c \<Longrightarrow> \<exists>x. snd c = Some x \<and> Logger_write_exn c msg L = Inl x"
  by (cases c) (auto simp: Logger_write_exn_def leaves_def split: option.splits)

lemma first_leave_Nil: "first_leave [] n = None"
  by (cases n) simp_all

lemma done_before_Nil: "done_before [] n = n"
  by (cases n) simp_all

lemma leaves_default: "\<not> leaves (WriteOk, None)"
  by (simp add: leaves_def throws_def)

lemma first_leave_Suc:
  "first_leave cs (Suc n) =
     (if leaves (next_call cs) then snd (next_call cs) else first_leave (tl cs) n)"
  by (cases cs) (simp_all add: next_call_def leaves_default first_leave_Nil)

lemma done_before_Suc:
  "done_before cs (Suc n) =
     (if leaves (next_call cs) then 0 else Suc (done_before (tl cs) n))"
  by (cases cs) (simp_all add: next_call_def leaves_default done_before_Nil)

lemma next_outcome_map_fst: "next_outcome (map fst cs) = fst (next_call cs)"
  by (cases cs) (simp_all add: next_outcome_def next_call_def)

lemma dump_loop_exn_bchain:
  "bchain (nodes L) p bs None \<Longrightarrow> distinct bs \<Longrightarrow>
   dump_loop_exn cs p L =
     Some (first_leave cs (length bs),
           L\<lparr>nodes := nodes L |` (- set (take (done_before cs (length bs)) bs)),
             events := events L @
               pass_events (log_stream L) (map fst cs)
                 (vals (nodes L) (take (done_before cs (length bs)) bs))\<rparr>)"
proof (induction bs arbitrary: p L cs)
  case Nil
  then show ?case by (subst dump_loop_exn.simps) (simp add: vals_def restrict_map_def)
next
  case (Cons a bs)
  from Cons.prems obtain n where
    p: "p = Some a" and n: "nodes L a = Some n" and
    rest: "bchain (nodes L) (prev n) bs None"
    by (auto split: option.splits)
  from Cons.prems have na: "a \<notin> set bs" and d: "distinct bs" by auto
  show ?case
  proof (cases "leaves (next_call cs)")
    case True
    from Logger_write_exn_leaves [OF True, of "val n" L] obtain x where
      x: "snd (next_call cs) = Some x" "Logger_write_exn (next_call cs) (val n) L = Inl x"
      by blast
    have "dump_loop_exn cs p L = Some (Some x, L)"
      by (subst dump_loop_exn.simps) (simp add: p n x)
    then show ?thesis
      using True x by (simp add: first_leave_Suc done_before_Suc vals_def restrict_map_def)
  next
    case False
    let ?e = "write_event (log_stream L) (fst (next_call cs)) (val n)"
    let ?L = "L\<lparr>events := events L @ [?e], nodes := (nodes L)(a := None)\<rparr>"
    let ?k = "done_before (tl cs) (length bs)"
    have "bchain (nodes ?L) (prev n) bs None"
      using rest na by (simp add: bchain_upd_other)
    from Cons.IH [OF this d, of "tl cs"]
    have IH: "dump_loop_exn (tl cs) (prev n) ?L =
       Some (first_leave (tl cs) (length bs),
             ?L\<lparr>nodes := nodes ?L |` (- set (take ?k bs)),
               events := events ?L @
                 pass_events (log_stream ?L) (map fst (tl cs)) (vals (nodes ?L) (take ?k bs))\<rparr>)" .
    have nt: "a \<notin> set (take ?k bs)" using na by (meson in_set_takeD)
    have v: "vals ((nodes L)(a := None)) (take ?k bs) = vals (nodes L) (take ?k bs)"
      using nt by (auto simp: vals_def val_at_def)
    have v': "vals (nodes L) (a # take ?k bs) = val n # vals (nodes L) (take ?k bs)"
      by (simp add: vals_def val_at_def n)
    have r: "((nodes L)(a := None)) |` (- set (take ?k bs)) =
             nodes L |` (- insert a (set (take ?k bs)))"
      by (auto simp: restrict_map_def fun_eq_iff)
    have "dump_loop_exn cs p L = dump_loop_exn (tl cs) (prev n) ?L"
      by (subst dump_loop_exn.simps)
         (simp add: p n Logger_write_exn_returns [OF False] Logger_write_eq emit_def Let_def)
    with IH show ?thesis
      using False
      by (simp add: first_leave_Suc done_before_Suc v v' r next_outcome_map_fst map_tl
               del: restrict_fun_upd)
  qed
qed

lemma first_leave_None_done: "first_leave cs n = None \<Longrightarrow> done_before cs n = n"
  by (induction cs n rule: first_leave.induct) (auto simp: leaves_def split: if_splits)

lemma quiet_first_leave: "list_all (\<lambda>c. \<not> leaves c) cs \<Longrightarrow> first_leave cs n = None"
  by (induction cs n rule: first_leave.induct) auto

lemma vals_take: "vals h (take k xs) = take k (vals h xs)"
  by (simp add: vals_def take_map)

lemma dump_que_exn_chain:
  assumes c: "chain (nodes L) (Some a) (a # as)" and d: "distinct (a # as)"
    and p: "prev_at (nodes L) a = None"
  shows "dump_que_exn None cs (Some a) L =
     Some (first_leave cs (Suc (length as)),
           L\<lparr>nodes := link_prev (nodes L) a as
                  |` (- set (take (done_before cs (Suc (length as))) (rev (a # as)))),
             events := events L @ [Lock_stream]
               @ pass_events (log_stream L) (map fst cs)
                   (take (done_before cs (Suc (length as))) (rev (vals (nodes L) (a # as))))
               @ [Unlock_stream]\<rparr>)"
    and "dump_que_exn (Some x) cs (Some a) L =
           Some (Some x, L\<lparr>nodes := link_prev (nodes L) a as\<rparr>)"
proof -
  let ?h = "link_prev (nodes L) a as"
  let ?t = "last (a # as)"
  let ?L = "emit [Lock_stream] (L\<lparr>nodes := ?h\<rparr>)"
  let ?k = "done_before cs (Suc (length as))"
  have g: "get_tail (nodes L) a = Some (?h, ?t)"
    using c d by (rule get_tail_chain)
  show "dump_que_exn (Some x) cs (Some a) L = Some (Some x, L\<lparr>nodes := ?h\<rparr>)"
    by (simp add: dump_que_exn_def g)
  have "bchain ?h (Some ?t) (rev (a # as)) (prev_at (nodes L) a)"
    using c d by (rule link_prev_bchain)
  then have b: "bchain (nodes ?L) (Some ?t) (rev (a # as)) None"
    by (simp add: p emit_def)
  have d': "distinct (rev (a # as))" using d by simp
  have len: "length (rev (a # as)) = Suc (length as)" by simp
  have l: "dump_loop_exn cs (Some ?t) ?L =
     Some (first_leave cs (Suc (length as)),
           ?L\<lparr>nodes := nodes ?L |` (- set (take ?k (rev (a # as)))),
             events := events ?L @
               pass_events (log_stream ?L) (map fst cs)
                 (vals (nodes ?L) (take ?k (rev (a # as))))\<rparr>)"
    using dump_loop_exn_bchain [OF b d', of cs] by (simp only: len)
  have v0: "vals (nodes ?L) (rev (a # as)) = rev (vals (nodes L) (a # as))"
    by (simp add: emit_def vals_link_prev) (simp add: vals_def rev_map)
  have v: "vals (nodes ?L) (take ?k (rev (a # as))) = take ?k (rev (vals (nodes L) (a # as)))"
    by (simp only: vals_take v0)
  have "dump_que_exn None cs (Some a) L =
          (case dump_loop_exn cs (Some ?t) ?L of
             None \<Rightarrow> None
           | Some (e, L1) \<Rightarrow> Some (e, emit [Unlock_stream] L1))"
    by (simp only: dump_que_exn_def g option.case prod.case)
  also have "\<dots> = Some (first_leave cs (Suc (length as)), emit [Unlock_stream]
       (?L\<lparr>nodes := nodes ?L |` (- set (take ?k (rev (a # as)))),
           events := events ?L @
               pass_events (log_stream ?L) (map fst cs)
                 (take ?k (rev (vals (nodes L) (a # as))))\<rparr>))"
    by (simp only: l v option.case prod.case)
  also have "\<dots> = Some (first_leave cs (Suc (length as)),
           L\<lparr>nodes := ?h |` (- set (take ?k (rev (a # as)))),
             events := events L @ [Lock_stream]
               @ pass_events (log_stream L) (map fst cs)
                   (take ?k (rev (vals (nodes L) (a # as))))
               @ [Unlock_stream]\<rparr>)"
    by (simp add: emit_def)
  finally show "dump_que_exn None cs (Some a) L =
     Some (first_leave cs (Suc (length as)),
           L\<lparr>nodes := ?h |` (- set (take ?k (rev (a # as)))),
             events := events L @ [Lock_stream]
               @ pass_events (log_stream L) (map fst cs)
                   (take ?k (rev (vals (nodes L) (a # as))))
               @ [Unlock_stream]\<rparr>)" .
qed

lemma drain_exn_wf:
  assumes w: "wf_que L as"
  shows "\<exists>L'. drain_exn (lock, cs) L = Some (pass_thrown lock cs (length as), L') \<and>
           head L' = None \<and> shutdown L' = shutdown L \<and> worker L' = worker L \<and>
           log_stream L' = log_stream L \<and> current_level L' = current_level L \<and>
           brk L' = brk L \<and>
           events L' = events L @ pass_trace_exn (log_stream L) lock cs (queued L as) \<and>
           (pass_thrown lock cs (length as) = None \<longrightarrow>
              L' = L\<lparr>head := None, nodes := Map.empty,
                     events := events L @ pass_trace_exn (log_stream L) lock cs (queued L as)\<rparr>)"
proof (cases as)
  case Nil
  with w have "head L = None" "nodes L = Map.empty" by (simp_all add: wf_que_Nil)
  then show ?thesis
    by (simp add: drain_exn_def que_dump_que_def dump_que_exn_def pass_thrown_def
          pass_trace_exn_def queued_def vals_def Nil)
next
  case (Cons a bs)
  with w have w': "wf_que L (a # bs)" by simp
  let ?L = "L\<lparr>head := None\<rparr>"
  from wf_que_Cons_head [OF w']
  have h: "head L = Some a" and c: "chain (nodes ?L) (Some a) (a # bs)"
    and d: "distinct (a # bs)" and p: "prev_at (nodes ?L) a = None"
    and r: "nodes L |` (- set (a # bs)) = Map.empty"
    by simp_all
  define ms where "ms = rev (vals (nodes L) (a # bs))"
  define sb where "sb = rev (a # bs)"
  define n where "n = Suc (length bs)"
  have q: "queued L as = ms" by (simp add: queued_def Cons ms_def)
  have qn: "ms \<noteq> []" by (simp add: ms_def vals_def)
  have ql: "length ms = n" "length as = n" "n \<noteq> 0"
    by (simp_all add: ms_def vals_def n_def Cons)
  have sl: "length sb = n" "set sb = set (a # bs)" by (simp_all add: sb_def n_def)
  show ?thesis
  proof (cases lock)
    case (Some x)
    have "drain_exn (lock, cs) L = Some (Some x, ?L\<lparr>nodes := link_prev (nodes ?L) a bs\<rparr>)"
      using dump_que_exn_chain(2) [OF c d p, of x cs] h
      by (simp add: drain_exn_def que_dump_que_def Some)
    then show ?thesis
      by (simp add: Some pass_thrown_def pass_trace_exn_def q qn ql)
  next
    case None
    let ?k = "done_before cs n"
    let ?R = "?L\<lparr>nodes := link_prev (nodes ?L) a bs |` (- set (take ?k sb)),
                 events := events ?L @ [Lock_stream]
                   @ pass_events (log_stream ?L) (map fst cs) (take ?k ms)
                   @ [Unlock_stream]\<rparr>"
    have res: "drain_exn (lock, cs) L = Some (first_leave cs n, ?R)"
      using dump_que_exn_chain(1) [OF c d p, of cs] h
      by (simp add: drain_exn_def que_dump_que_def None ms_def sb_def n_def)
    have e: "first_leave cs n = None \<longrightarrow>
             link_prev (nodes L) a bs |` (- set (take ?k sb)) = Map.empty"
    proof
      assume "first_leave cs n = None"
      then have "?k = n" by (rule first_leave_None_done)
      then have "take ?k sb = sb" by (simp add: sl)
      moreover have "link_prev (nodes L) a bs |` (- set (a # bs)) = nodes L |` (- set (a # bs))"
        by (rule link_prev_restrict) auto
      ultimately show "link_prev (nodes L) a bs |` (- set (take ?k sb)) = Map.empty"
        using r by (simp only: sl)
    qed
    have t: "pass_trace_exn (log_stream L) lock cs ms =
               [Lock_stream] @ pass_events (log_stream L) (map fst cs) (take ?k ms)
               @ [Unlock_stream]"
      by (simp add: pass_trace_exn_def None qn ql)
    have pt: "pass_thrown lock cs n = first_leave cs n"
      by (simp add: pass_thrown_def None ql)
    show ?thesis
      unfolding q ql res pt t using e
      by (intro exI [of _ ?R]) simp
  qed
qed

lemma pass_quiet:
  assumes "list_all (\<lambda>c. \<not> leaves c) cs"
  shows "pass_thrown None cs n = None"
    and "pass_trace_exn s None cs ms = pass_trace s (map fst cs) ms"
proof -
  from assms have f: "\<And>n. first_leave cs n = None" by (rule quiet_first_leave)
  then show "pass_thrown None cs n = None" by (simp add: pass_thrown_def)
  from f have "done_before cs (length ms) = length ms" by (simp add: first_leave_None_done)
  then show "pass_trace_exn s None cs ms = pass_trace s (map fst cs) ms"
    by (simp add: pass_trace_exn_def pass_trace_def)
qed

lemma drain_exn_quiet:
  assumes w: "wf_que L as" and q: "list_all (\<lambda>c. \<not> leaves c) cs"
  shows "drain_exn (None, cs) L = Some (None, L') \<longleftrightarrow> drain (map fst cs) L = Some L'"
proof -
  from drain_exn_wf [OF w, of None cs] obtain L1 where
    1: "drain_exn (None, cs) L = Some (None, L1)" and
    2: "L1 = L\<lparr>head := None, nodes := Map.empty,
             events := events L @ pass_trace (log_stream L) (map fst cs) (queued L as)\<rparr>"
    by (auto simp: pass_quiet [OF q])
  from 2 have "drain (map fst cs) L = Some L1" by (simp add: drain_wf [OF w])
  with 1 show ?thesis by auto
qed

subsection \<open>The other threads\<close>





subsection \<open>The thread function and the public methods\<close>

lemma last_pass_quiet:
  assumes w: "wf_que L as" and q: "list_all (\<lambda>c. \<not> leaves c) cs"
  shows "\<exists>L'. drain (map fst cs) L = Some L' \<and>
              last_pass handler (None, cs) L = Some (Left_loop, L')"
proof -
  from drain_wf_frame [OF w, of "map fst cs"] obtain L' where
    d: "drain (map fst cs) L = Some L'" by blast
  then have "drain_exn (None, cs) L = Some (None, L')"
    using drain_exn_quiet [OF w q] by simp
  with d show ?thesis by (simp add: last_pass_def)
qed

lemma quiet_calls: "list_all (\<lambda>c. \<not> leaves c) (map (\<lambda>oc. (oc, None)) ocs)"
  by (induction ocs) (simp_all add: leaves_def)

lemma map_fst_quiet: "map fst (map (\<lambda>oc. (oc, None)) ocs) = ocs"
  by (induction ocs) simp_all

lemma get_it_done_quiet_shutdown:
  assumes s: "shutdown L" and w: "wf_que L as"
  shows "\<exists>L'. drain (next_pass ocss) L = Some L' \<and>
              get_it_done handler (map quiet ocss) L = Some (Left_loop, L')"
proof (cases ocss)
  case Nil
  from last_pass_quiet [OF w, of "[]" handler] s Nil show ?thesis
    by (simp add: next_pass_def)
next
  case (Cons ocs rest)
  from last_pass_quiet [OF w quiet_calls, where handler = handler and ocs1 = ocs]
  have "\<exists>L'. drain ocs L = Some L' \<and>
              last_pass handler (None, map (\<lambda>oc. (oc, None)) ocs) L = Some (Left_loop, L')"
    by (simp only: map_fst_quiet)
  with s Cons show ?thesis
    by (simp add: next_pass_def quiet_def)
qed

lemma ExitLogger_wf:
  assumes r: "worker L" and w: "wf_que L as"
  shows "ExitLogger ocss L =
     Some (L\<lparr>shutdown := True, head := None, nodes := Map.empty, worker := False,
             log_stream := None,
             events := events L @ pass_trace (log_stream L) (next_pass ocss) (queued L as)
                       @ [Lock_stream] @ close_events (log_stream L) @ [Unlock_stream]\<rparr>)"
proof -
  let ?L = "L\<lparr>shutdown := True\<rparr>"
  let ?D = "?L\<lparr>head := None, nodes := Map.empty,
             events := events ?L @ pass_trace (log_stream ?L) (next_pass ocss) (queued ?L as)\<rparr>"
  have w': "wf_que ?L as" using w by (simp add: wf_que_def)
  have s: "shutdown ?L" by simp
  from get_it_done_quiet_shutdown [OF s w', of ocss None] obtain L' where
    d: "drain (next_pass ocss) ?L = Some L'" and
    g: "get_it_done None (map quiet ocss) ?L = Some (Left_loop, L')"
    by blast
  from d have "L' = ?D" by (simp add: drain_wf [OF w'])
  with g have g': "get_it_done None (map quiet ocss) ?L = Some (Left_loop, ?D)" by simp
  have "ExitLogger ocss L = Some (SetLogFile [] False (?D\<lparr>worker := False\<rparr>))"
    by (simp only: ExitLogger_def r if_True g' option.case prod.case)
  also have "SetLogFile [] False (?D\<lparr>worker := False\<rparr>) =
     L\<lparr>shutdown := True, head := None, nodes := Map.empty, worker := False,
             log_stream := None,
             events := events L @ pass_trace (log_stream L) (next_pass ocss) (queued L as)
                       @ [Lock_stream] @ close_events (log_stream L) @ [Unlock_stream]\<rparr>"
    by (simp add: SetLogFile_empty queued_def)
  finally show ?thesis .
qed

lemma Log_accounted:
  assumes "accounted L as ms"
  shows "\<exists>L' as'. Log ts level msg L = Some L' \<and>
           accounted L' as' (ms @ accepted (current_level L) [ALog ts level msg]) \<and>
           current_level L' = current_level L \<and> worker L' = worker L \<and>
           log_stream L' = log_stream L \<and>
           brk L' = brk L + length (accepted (current_level L) [ALog ts level msg])"
proof -
  from assms have w: "wf_que L as" and
    m: "map snd (lines (events L)) @ queued L as = ms"
    by (simp_all add: accounted_def)
  show ?thesis
  proof (cases "level < Trace \<or> Error < level \<or> msg = []")
    case True
    let ?L = "emit [Cerr (''invalid parameters for Log function: '' @ show_int level
                             @ ''; '' @ msg)] L"
    have "Log ts level msg L = Some ?L" using True by (simp add: Log_def)
    moreover have "accounted ?L as ms"
      using w m by (simp add: accounted_def wf_que_def queued_def emit_def lines_append)
    moreover have "accepted (current_level L) [ALog ts level msg] = []"
      using True by auto
    ultimately show ?thesis by (auto simp: emit_def)
  next
    case valid: False
    show ?thesis
    proof (cases "current_level L \<le> level")
      case True
      let ?v = "Log_line ts (severity_names ! nat level) msg"
      have "Log ts level msg L = Some (push ?v L)"
        using valid True by (simp add: Log_def severity_to_str_in_range)
      moreover have "accounted (push ?v L) (brk L # as) (ms @ [?v])"
        using wf_que_push [OF w] queued_push [OF w] m
        by (simp add: accounted_def) (simp add: push_def Let_def)
      moreover have "accepted (current_level L) [ALog ts level msg] = [?v]"
        using valid True by simp
      ultimately show ?thesis by (auto simp: push_def Let_def)
    next
      case False
      have "Log ts level msg L = Some L"
        using valid False by (simp add: Log_def)
      moreover have "accepted (current_level L) [ALog ts level msg] = []"
        using False by simp
      ultimately show ?thesis using assms by auto
    qed
  qed
qed

subsection \<open>Runs\<close>

lemma accepted_Cons: "accepted T (a # as) = accepted T [a] @ accepted T as"
  by (cases a) simp_all

lemma running_after_Cons:
  "running_after w (a # as) = running_after (running_after w [a]) as"
  by (cases a) simp_all

lemma run_append:
  "run (xs @ ys) L = (case run xs L of None \<Rightarrow> None | Some L1 \<Rightarrow> run ys L1)"
  by (induction xs arbitrary: L) (auto split: option.splits)

lemma next_pass_ok:
  "list_all (list_all (\<lambda>oc. oc = WriteOk)) ocss \<Longrightarrow>
   list_all (\<lambda>oc. oc = WriteOk) (next_pass ocss)"
  by (cases ocss) (simp_all add: next_pass_def)

lemma drain_accounted:
  assumes a: "accounted L as ms" and ok: "list_all (\<lambda>oc. oc = WriteOk) ocs"
  shows "\<exists>L'. drain ocs L = Some L' \<and> accounted L' [] ms \<and>
           current_level L' = current_level L \<and> worker L' = worker L \<and> brk L' = brk L"
proof -
  from a have w: "wf_que L as" and
    m: "map snd (lines (events L)) @ queued L as = ms"
    by (simp_all add: accounted_def)
  have "map snd (map (Pair (dest_of (log_stream L))) (queued L as)) = queued L as"
    by (simp add: comp_def)
  with m show ?thesis
    by (simp add: drain_wf [OF w] accounted_def wf_que_Nil queued_def vals_def
          lines_append lines_pass_trace_ok [OF ok])
qed

lemma ExitLogger_accounted:
  assumes a: "accounted L as ms" and ok: "list_all (list_all (\<lambda>oc. oc = WriteOk)) ocss"
    and r: "worker L"
  shows "\<exists>L'. ExitLogger ocss L = Some L' \<and> accounted L' [] ms \<and>
           current_level L' = current_level L \<and> \<not> worker L' \<and> brk L' = brk L"
proof -
  from a have w: "wf_que L as" and
    m: "map snd (lines (events L)) @ queued L as = ms"
    by (simp_all add: accounted_def)
  have c: "lines (close_events (log_stream L)) = []"
    by (simp add: close_events_def split: option.splits)
  have "map snd (map (Pair (dest_of (log_stream L))) (queued L as)) = queued L as"
    by (simp add: comp_def)
  with m c show ?thesis
    by (simp add: ExitLogger_wf [OF r w] accounted_def wf_que_Nil queued_def vals_def
          lines_append lines_pass_trace_ok [OF next_pass_ok [OF ok]])
qed

lemma exec_accounted:
  assumes a: "accounted L as ms" and f: "faultless_action x"
  shows "\<exists>L' as'. exec x L = Some L' \<and>
           accounted L' as' (ms @ accepted (current_level L) [x]) \<and>
           current_level L' = current_level L \<and>
           worker L' = running_after (worker L) [x] \<and>
           brk L' = brk L + length (accepted (current_level L) [x])"
proof (cases x)
  case (ALog ts level msg)
  with Log_accounted [OF a, of ts level msg] show ?thesis by auto
next
  case (ASetLogFile name opened)
  from a have "accounted (SetLogFile name opened L) as ms"
    by (simp add: accounted_def wf_que_def queued_def SetLogFile_frame)
  with ASetLogFile show ?thesis by (auto simp: SetLogFile_frame)
next
  case AStart
  from a have "accounted (StartBackGroundThread L) as ms"
    by (simp add: accounted_def wf_que_def queued_def StartBackGroundThread_def)
  with AStart show ?thesis by (auto simp: StartBackGroundThread_def)
next
  case (AExit ocss)
  show ?thesis
  proof (cases "worker L")
    case True
    from f AExit have "list_all (list_all (\<lambda>oc. oc = WriteOk)) ocss" by simp
    from ExitLogger_accounted [OF a this True] AExit show ?thesis by auto
  next
    case False
    with a AExit show ?thesis by (auto simp: ExitLogger_def)
  qed
next
  case (ATick ocs)
  show ?thesis
  proof (cases "worker L \<and> shutdown L = False")
    case True
    from f ATick have "list_all (\<lambda>oc. oc = WriteOk) ocs" by simp
    from drain_accounted [OF a this] ATick True show ?thesis by auto
  next
    case False
    with a ATick show ?thesis by auto
  qed
qed

lemma run_accounted:
  assumes "accounted L as ms" and "faultless acts"
  shows "\<exists>L' as'. run acts L = Some L' \<and>
           accounted L' as' (ms @ accepted (current_level L) acts) \<and>
           current_level L' = current_level L \<and>
           worker L' = running_after (worker L) acts \<and>
           brk L' = brk L + length (accepted (current_level L) acts)"
  using assms
proof (induction acts arbitrary: L as ms)
  case Nil
  then show ?case by auto
next
  case (Cons x xs)
  from Cons.prems have fx: "faultless_action x" and fxs: "faultless xs"
    by (simp_all add: faultless_def)
  from exec_accounted [OF Cons.prems(1) fx] obtain L1 as1 where
    e: "exec x L = Some L1" and
    a1: "accounted L1 as1 (ms @ accepted (current_level L) [x])" and
    c1: "current_level L1 = current_level L" and
    w1: "worker L1 = running_after (worker L) [x]" and
    b1: "brk L1 = brk L + length (accepted (current_level L) [x])"
    by blast
  from Cons.IH [OF a1 fxs] obtain L2 as2 where
    r: "run xs L1 = Some L2" and
    a2: "accounted L2 as2 ((ms @ accepted (current_level L) [x]) @ accepted (current_level L1) xs)" and
    c2: "current_level L2 = current_level L1" and
    w2: "worker L2 = running_after (worker L1) xs" and
    b2: "brk L2 = brk L1 + length (accepted (current_level L1) xs)"
    by blast
  have "run (x # xs) L = Some L2" using e r by simp
  moreover have "accounted L2 as2 (ms @ accepted (current_level L) (x # xs))"
    using a2 c1 accepted_Cons [of "current_level L" x xs] by simp
  moreover have "worker L2 = running_after (worker L) (x # xs)"
    using w2 w1 running_after_Cons [of "worker L" x xs] by simp
  moreover have "brk L2 = brk L + length (accepted (current_level L) (x # xs))"
    using b1 b2 c1 accepted_Cons [of "current_level L" x xs] by simp
  ultimately show ?case using c1 c2 by auto
qed

text \<open>
  Claim C1.  Take a logger as the constructor returns it, any run in which no write
  throws, and a final \<open>ExitLogger\<close> that finds a worker.  Then the run returns (no
  walk reads a pointer that is null or deleted), the lines written, over all
  destinations and in this order, are exactly the lines of the accepted \<open>Log\<close> calls
  (each one once), every node that was allocated (there is one for each accepted call)
  has been deleted, and the stack is empty.
\<close>

theorem no_loss_no_duplication:
  assumes c: "Logger_ctor timeout T = Inr L0"
    and f: "faultless (acts @ [AExit ocss])"
    and r: "running_after False acts"
  shows "\<exists>L. run (acts @ [AExit ocss]) L0 = Some L \<and>
             map snd (lines (events L)) = accepted T acts \<and>
             nodes L = Map.empty \<and> head L = None \<and>
             brk L = length (accepted T acts)"
proof -
  from c have L0: "L0 = Logger_default\<lparr>current_timeout := timeout, current_level := T\<rparr>"
    by (simp add: Logger_ctor_def split: if_splits)
  have a0: "accounted L0 [] []"
    by (simp add: L0 accounted_def wf_que_Nil queued_def vals_def Logger_default_def)
  have t0: "current_level L0 = T" and w0: "worker L0 = False" and b0: "brk L0 = 0"
    by (simp_all add: L0 Logger_default_def)
  from f have fa: "faultless acts" and
    fe: "list_all (list_all (\<lambda>oc. oc = WriteOk)) ocss"
    by (simp_all add: faultless_def)
  from run_accounted [OF a0 fa] obtain L1 as1 where
    r1: "run acts L0 = Some L1" and
    a1: "accounted L1 as1 (accepted T acts)" and
    w1: "worker L1" and b1: "brk L1 = length (accepted T acts)"
    using t0 w0 b0 r by auto
  from ExitLogger_accounted [OF a1 fe w1] obtain L2 where
    e: "ExitLogger ocss L1 = Some L2" and a2: "accounted L2 [] (accepted T acts)"
    and b2: "brk L2 = brk L1"
    by blast
  have "run (acts @ [AExit ocss]) L0 = Some L2"
    by (simp add: run_append r1 e)
  moreover from a2 have "map snd (lines (events L2)) = accepted T acts"
    "nodes L2 = Map.empty" "head L2 = None"
    by (simp_all add: accounted_def wf_que_Nil queued_def vals_def)
  ultimately show ?thesis using b1 b2 by simp
qed

theorem no_loss_no_duplication_witness:
  "Logger_ctor 0 Debug = Inr (Logger_default\<lparr>current_timeout := 0, current_level := Debug\<rparr>) \<and>
   faultless ([ASetLogFile ''log_file0.txt'' True, AStart,
               ALog ''t1'' Debug ''Start Logging'', ALog ''t2'' Info ''a'', ATick [],
               ALog ''t3'' Trace ''b'', ALog ''t4'' 7 ''bad'', ALog ''t5'' Error ''c'']
              @ [AExit []]) \<and>
   running_after False
     [ASetLogFile ''log_file0.txt'' True, AStart,
      ALog ''t1'' Debug ''Start Logging'', ALog ''t2'' Info ''a'', ATick [],
      ALog ''t3'' Trace ''b'', ALog ''t4'' 7 ''bad'', ALog ''t5'' Error ''c''] \<and>
   (\<exists>L. run ([ASetLogFile ''log_file0.txt'' True, AStart,
               ALog ''t1'' Debug ''Start Logging'', ALog ''t2'' Info ''a'', ATick [],
               ALog ''t3'' Trace ''b'', ALog ''t4'' 7 ''bad'', ALog ''t5'' Error ''c'']
              @ [AExit []])
            (Logger_default\<lparr>current_timeout := 0, current_level := Debug\<rparr>) = Some L \<and>
        map snd (lines (events L)) =
          [''t1 Debug: Start Logging'', ''t2 Info: a'', ''t5 Error: c''] \<and>
        nodes L = Map.empty \<and> head L = None \<and> brk L = 3)"
proof -
  let ?acts = "[ASetLogFile ''log_file0.txt'' True, AStart,
      ALog ''t1'' Debug ''Start Logging'', ALog ''t2'' Info ''a'', ATick [],
      ALog ''t3'' Trace ''b'', ALog ''t4'' 7 ''bad'', ALog ''t5'' Error ''c'']"
  let ?L0 = "Logger_default\<lparr>current_timeout := 0, current_level := Debug\<rparr>"
  have c: "Logger_ctor 0 Debug = Inr ?L0"
    by (simp add: Logger_ctor_def Severity_defs)
  have f: "faultless (?acts @ [AExit []])" by (simp add: faultless_def)
  have r: "running_after False ?acts" by simp
  have a: "accepted Debug ?acts =
             [''t1 Debug: Start Logging'', ''t2 Info: a'', ''t5 Error: c'']"
    by (simp add: Severity_defs severity_names_def Log_line_def)
  have l: "length [''t1 Debug: Start Logging'', ''t2 Info: a'', ''t5 Error: c''] = 3"
    by simp
  from no_loss_no_duplication [OF c f r]
  have e: "\<exists>L. run (?acts @ [AExit []]) ?L0 = Some L \<and>
        map snd (lines (events L)) =
          [''t1 Debug: Start Logging'', ''t2 Info: a'', ''t5 Error: c''] \<and>
        nodes L = Map.empty \<and> head L = None \<and> brk L = 3"
    by (simp only: a l)
  from c f r e show ?thesis by (intro conjI)
qed

subsection \<open>The order of a pass\<close>

text \<open>
  Claim C2.  Let the chain that starts at \<open>a\<close> consist of the distinct nodes
  \<open>a # as\<close> (newest first, as \<open>push\<close> links them), with no backward link at \<open>a\<close>.
  Then \<open>get_tail\<close> returns the last node of the chain and leaves a store in which
  following \<open>prev\<close> from that node visits the chain in reverse and ends at null, the
  messages untouched; and \<open>dump_que\<close> writes the messages in reverse chain order, that
  is oldest first, one write for each node, and deletes exactly these nodes.
\<close>

theorem drain_chronological:
  assumes c: "chain (nodes L) (Some a) (a # as)" and d: "distinct (a # as)"
    and p: "prev_at (nodes L) a = None"
  shows "\<exists>h. get_tail (nodes L) a = Some (h, last (a # as)) \<and>
             bchain h (Some (last (a # as))) (rev (a # as)) None \<and>
             vals h (a # as) = vals (nodes L) (a # as) \<and>
             dump_que ocs (Some a) L =
               Some (L\<lparr>nodes := nodes L |` (- set (a # as)),
                       events := events L @ [Lock_stream]
                         @ pass_events (log_stream L) ocs (rev (vals (nodes L) (a # as)))
                         @ [Unlock_stream]\<rparr>) \<and>
             (list_all (\<lambda>oc. oc = WriteOk) ocs \<longrightarrow>
                lines (pass_events (log_stream L) ocs (rev (vals (nodes L) (a # as)))) =
                  map (Pair (dest_of (log_stream L))) (rev (vals (nodes L) (a # as))))"
proof -
  let ?h = "link_prev (nodes L) a as"
  have "get_tail (nodes L) a = Some (?h, last (a # as))"
    using c d by (rule get_tail_chain)
  moreover have "bchain ?h (Some (last (a # as))) (rev (a # as)) None"
    using link_prev_bchain [OF c d] by (simp only: p)
  moreover have "vals ?h (a # as) = vals (nodes L) (a # as)"
    by (rule vals_link_prev)
  moreover note dump_que_chain [OF c d p, of ocs]
  moreover have "list_all (\<lambda>oc. oc = WriteOk) ocs \<longrightarrow>
                lines (pass_events (log_stream L) ocs (rev (vals (nodes L) (a # as)))) =
                  map (Pair (dest_of (log_stream L))) (rev (vals (nodes L) (a # as)))"
    by (simp add: lines_pass_events_ok)
  ultimately show ?thesis by blast
qed

theorem drain_chronological_witness:
  "chain (nodes (push ''c'' (push ''b'' (push ''a'' Logger_default)))) (Some 2) [2, 1, 0] \<and>
   distinct [2, 1, 0 :: nat] \<and>
   prev_at (nodes (push ''c'' (push ''b'' (push ''a'' Logger_default)))) 2 = None \<and>
   map_option events (dump_que [] (Some 2) (push ''c'' (push ''b'' (push ''a'' Logger_default))))
     = Some [Lock_stream, Line Console ''a'', Line Console ''b'', Line Console ''c'',
             Unlock_stream]"
proof -
  let ?L = "push ''c'' (push ''b'' (push ''a'' Logger_default))"
  have n: "nodes ?L = [0 \<mapsto> \<lparr>val = ''a'', prev = None, next = None\<rparr>,
                       1 \<mapsto> \<lparr>val = ''b'', prev = None, next = Some 0\<rparr>,
                       2 \<mapsto> \<lparr>val = ''c'', prev = None, next = Some 1\<rparr>]"
    by (simp add: push_def Logger_default_def Let_def numeral_2_eq_2)
  have e: "events ?L = []" and s: "log_stream ?L = None"
    by (simp_all add: push_def Logger_default_def Let_def)
  have c: "chain (nodes ?L) (Some 2) (2 # [1, 0])" by (simp add: n)
  have d: "distinct (2 # [1, 0 :: nat])" by simp
  have p: "prev_at (nodes ?L) 2 = None" by (simp add: n prev_at_def)
  have v: "rev (vals (nodes ?L) (2 # [1, 0])) = [''a'', ''b'', ''c'']"
    by (simp add: n vals_def val_at_def)
  from drain_chronological [OF c d p, of "[]"] obtain h where
    "dump_que [] (Some 2) ?L =
       Some (?L\<lparr>nodes := nodes ?L |` (- set (2 # [1, 0])),
               events := events ?L @ [Lock_stream]
                 @ pass_events (log_stream ?L) [] (rev (vals (nodes ?L) (2 # [1, 0])))
                 @ [Unlock_stream]\<rparr>)"
    by blast
  then have "map_option events (dump_que [] (Some 2) ?L) =
      Some [Lock_stream, Line Console ''a'', Line Console ''b'', Line Console ''c'',
             Unlock_stream]"
    by (simp only: v e s) (simp add: write_event_def next_outcome_def dest_of_def)
  with c d p show ?thesis by (simp only: simp_thms)
qed

subsection \<open>The stream mutex\<close>

lemma pass_events_no_lock:
  "e \<in> set (pass_events s ocs ms) \<Longrightarrow> e \<noteq> Lock_stream \<and> e \<noteq> Unlock_stream"
  by (induction ms arbitrary: ocs) (auto simp: write_event_def split: outcome.splits)

lemma held_no_lock:
  "(\<And>e. e \<in> set es \<Longrightarrow> e \<noteq> Lock_stream \<and> e \<noteq> Unlock_stream) \<Longrightarrow> held b es = b"
  by (induction b es rule: held.induct) auto

lemma length_pass_events: "length (pass_events s ocs ms) = length ms"
  by (induction ms arbitrary: ocs) simp_all

lemma length_queued: "length (queued L as) = length as"
  by (simp add: queued_def vals_def)

lemma held_pass_prefix: "held True (take k (pass_events s ocs ms))"
proof -
  have "\<And>e. e \<in> set (take k (pass_events s ocs ms)) \<Longrightarrow> e \<noteq> Lock_stream \<and> e \<noteq> Unlock_stream"
    using pass_events_no_lock by (metis in_set_takeD)
  then show ?thesis by (simp add: held_no_lock)
qed

lemma held_append: "held b (xs @ ys) = held (held b xs) ys"
  by (induction b xs rule: held.induct) simp_all

lemma released_between_two_lines:
  assumes "list_all (\<lambda>oc. oc = WriteOk) ocs" and "2 \<le> length ms"
  shows "\<not> released_between False (Lock_stream # pass_events s ocs ms @ [Unlock_stream])"
proof -
  from assms(2) obtain m1 m2 rest where ms: "ms = m1 # m2 # rest"
    by (cases ms; cases "tl ms") auto
  from assms(1) have "next_outcome ocs = WriteOk" "next_outcome (tl ocs) = WriteOk"
    by (simp_all add: next_outcome_ok tl_ok)
  then show ?thesis by (simp add: ms write_event_def)
qed

lemma SetLogFile_events:
  "\<exists>m. events (SetLogFile name opened L) = events L @ Lock_stream # m @ [Unlock_stream] \<and>
       lines m = [] \<and> held True m"
  by (simp add: SetLogFile_def Let_def release_eq emit_def close_events_def
           split: option.splits)

text \<open>
  Claim C3, as the code has it.  \<open>dump_que\<close> takes the stream mutex once, before the
  first line of a pass, and releases it once, after the last: the mutex is held after
  every prefix of the writes of the pass, so with two or more lines it is not released
  between two of them.  \<open>SetLogFile\<close> holds it for one swap, in which no line is
  written.
\<close>

theorem stream_lock_spans_pass:
  assumes w: "wf_que L as"
  shows "\<exists>L' ws. drain ocs L = Some L' \<and>
           ws = pass_events (log_stream L) ocs (queued L as) \<and>
           length ws = length as \<and>
           events L' = events L @ (if as = [] then [] else Lock_stream # ws @ [Unlock_stream]) \<and>
           (\<forall>k \<le> length ws. held False (Lock_stream # take k ws)) \<and>
           \<not> held False (Lock_stream # ws @ [Unlock_stream]) \<and>
           (list_all (\<lambda>oc. oc = WriteOk) ocs \<and> 2 \<le> length as \<longrightarrow>
              \<not> released_between False (Lock_stream # ws @ [Unlock_stream])) \<and>
           (\<exists>m. events (SetLogFile name opened L) =
                  events L @ Lock_stream # m @ [Unlock_stream] \<and>
                lines m = [] \<and> held True m)"
proof -
  let ?ws = "pass_events (log_stream L) ocs (queued L as)"
  let ?L = "L\<lparr>head := None, nodes := Map.empty,
             events := events L @ pass_trace (log_stream L) ocs (queued L as)\<rparr>"
  have 1: "drain ocs L = Some ?L" using w by (rule drain_wf)
  have 2: "length ?ws = length as" by (simp add: length_pass_events length_queued)
  have q: "(queued L as = []) = (as = [])" by (simp add: queued_def vals_def)
  have 3: "events ?L = events L @ (if as = [] then [] else Lock_stream # ?ws @ [Unlock_stream])"
    by (simp add: pass_trace_def q)
  have 4: "\<forall>k \<le> length ?ws. held False (Lock_stream # take k ?ws)"
    by (simp add: held_pass_prefix)
  have "held True ?ws" using held_pass_prefix [of "length ?ws" "log_stream L" ocs "queued L as"]
    by simp
  then have 5: "\<not> held False (Lock_stream # ?ws @ [Unlock_stream])"
    by (simp add: held_append)
  have 6: "list_all (\<lambda>oc. oc = WriteOk) ocs \<and> 2 \<le> length as \<longrightarrow>
              \<not> released_between False (Lock_stream # ?ws @ [Unlock_stream])"
    using released_between_two_lines [of ocs "queued L as" "log_stream L"]
    by (simp add: length_queued)
  from 1 2 3 4 5 6 SetLogFile_events [of name opened L] show ?thesis by blast
qed

theorem stream_lock_spans_pass_witness:
  "wf_que (push ''b'' (push ''a'' Logger_default)) [1, 0] \<and>
   (\<exists>L'. drain [] (push ''b'' (push ''a'' Logger_default)) = Some L' \<and>
         events L' = [Lock_stream, Line Console ''a'', Line Console ''b'', Unlock_stream])"
proof -
  let ?L = "push ''b'' (push ''a'' Logger_default)"
  have n: "nodes ?L = [0 \<mapsto> \<lparr>val = ''a'', prev = None, next = None\<rparr>,
                       1 \<mapsto> \<lparr>val = ''b'', prev = None, next = Some 0\<rparr>]"
    and h: "head ?L = Some 1" and b: "brk ?L = 2"
    and e: "events ?L = []" and s: "log_stream ?L = None"
    by (simp_all add: push_def Logger_default_def Let_def)
  have w: "wf_que ?L [1, 0]"
    by (auto simp: wf_que_def n h b prev_at_def)
  have q: "queued ?L [1, 0] = [''a'', ''b'']"
    by (simp add: queued_def vals_def val_at_def n)
  from stream_lock_spans_pass [OF w, of "[]" "[]" False] obtain L' where
    "drain [] ?L = Some L'" and
    "events L' = events ?L @ (if [1, 0 :: nat] = [] then []
       else Lock_stream # pass_events (log_stream ?L) [] (queued ?L [1, 0]) @ [Unlock_stream])"
    by blast
  then have "drain [] ?L = Some L' \<and>
         events L' = [Lock_stream, Line Console ''a'', Line Console ''b'', Unlock_stream]"
    by (simp only: q e s) (simp add: write_event_def next_outcome_def dest_of_def)
  with w show ?thesis by blast
qed

text \<open>
  Claim C3 as stated fails: in a pass over two messages the mutex is still held after
  the first line, and there is no release between the two lines.
\<close>

theorem lock_released_between_writes_counterexample:
  "map_option events (drain [] (push ''b'' (push ''a'' Logger_default))) =
     Some [Lock_stream, Line Console ''a'', Line Console ''b'', Unlock_stream] \<and>
   \<not> released_between False [Lock_stream, Line Console ''a'', Line Console ''b'', Unlock_stream] \<and>
   held False [Lock_stream, Line Console ''a'']"
  by code_simp

subsection \<open>Failing writes\<close>


lemma exec_wf:
  assumes w: "wf_que L as"
  shows "\<exists>L' as'. exec x L = Some L' \<and> wf_que L' as'"
proof (cases x)
  case (ALog ts level msg)
  have "accounted L as (map snd (lines (events L)) @ queued L as)"
    using w by (simp add: accounted_def)
  from Log_accounted [OF this, of ts level msg] ALog show ?thesis
    by (auto simp: accounted_def)
next
  case (ASetLogFile name opened)
  from w have "wf_que (SetLogFile name opened L) as"
    by (simp add: wf_que_def SetLogFile_frame)
  with ASetLogFile show ?thesis by auto
next
  case AStart
  from w have "wf_que (StartBackGroundThread L) as"
    by (simp add: wf_que_def StartBackGroundThread_def)
  with AStart show ?thesis by auto
next
  case (AExit ocss)
  show ?thesis
  proof (cases "worker L")
    case True
    let ?L = "L\<lparr>shutdown := True, head := None, nodes := Map.empty, worker := False,
             log_stream := None,
             events := events L @ pass_trace (log_stream L) (next_pass ocss) (queued L as)
                       @ [Lock_stream] @ close_events (log_stream L) @ [Unlock_stream]\<rparr>"
    have "wf_que ?L []" by (simp add: wf_que_Nil)
    with ExitLogger_wf [OF True w, of ocss] AExit show ?thesis
      by (intro exI [of _ ?L] exI [of _ "[]"]) simp
  next
    case False
    with w AExit show ?thesis by (auto simp: ExitLogger_def)
  qed
next
  case (ATick ocs)
  from drain_wf_frame [OF w, of ocs] w ATick show ?thesis by auto
qed


subsection \<open>Failures in the background thread\<close>










subsection \<open>The stream after a stop\<close>

lemma lines_pass_events_dest:
  "(d, m) \<in> set (lines (pass_events s ocs ms)) \<Longrightarrow> d = dest_of s"
  by (induction ms arbitrary: ocs) (auto simp: write_event_def split: outcome.splits)

lemma lines_pass_trace_dest:
  "(d, m) \<in> set (lines (pass_trace s ocs ms)) \<Longrightarrow> d = dest_of s"
  by (auto simp: pass_trace_def lines_append dest: lines_pass_events_dest split: if_splits)

lemma Log_events:
  "Log ts level msg L = Some L' \<Longrightarrow>
   \<exists>evs. events L' = events L @ evs \<and> lines evs = [] \<and> log_stream L' = log_stream L"
  by (auto simp: Log_def emit_def push_def Let_def split: if_splits option.splits)

lemma exec_console:
  assumes w: "wf_que L as" and s: "log_stream L = None" and n: "no_swap_action x"
  shows "\<exists>L' as' evs. exec x L = Some L' \<and> wf_que L' as' \<and> log_stream L' = None \<and>
           events L' = events L @ evs \<and>
           (\<forall>d m. (d, m) \<in> set (lines evs) \<longrightarrow> d = Console)"
proof -
  from exec_wf [OF w, of x] obtain L' as' where
    e: "exec x L = Some L'" and w': "wf_que L' as'" by blast
  have c: "dest_of None = Console" by (simp add: dest_of_def)
  have "\<exists>evs. log_stream L' = None \<and> events L' = events L @ evs \<and>
           (\<forall>d m. (d, m) \<in> set (lines evs) \<longrightarrow> d = Console)"
  proof (cases x)
    case (ALog ts level msg)
    with e have "Log ts level msg L = Some L'" by simp
    from Log_events [OF this] s show ?thesis by auto
  next
    case (ASetLogFile name opened)
    with n show ?thesis by simp
  next
    case AStart
    with e s show ?thesis by (auto simp: StartBackGroundThread_def)
  next
    case (AExit ocss)
    show ?thesis
    proof (cases "worker L")
      case True
      let ?evs = "pass_trace (log_stream L) (next_pass ocss) (queued L as)
                       @ [Lock_stream] @ close_events (log_stream L) @ [Unlock_stream]"
      from ExitLogger_wf [OF True w, of ocss] e AExit
      have "log_stream L' = None" "events L' = events L @ ?evs" by auto
      moreover have "\<forall>d m. (d, m) \<in> set (lines ?evs) \<longrightarrow> d = Console"
        using lines_pass_trace_dest [of _ _ None] c
        by (auto simp: s lines_append close_events_def)
      ultimately show ?thesis by blast
    next
      case False
      with e s AExit show ?thesis by (auto simp: ExitLogger_def)
    qed
  next
    case (ATick ocs)
    show ?thesis
    proof (cases "worker L \<and> shutdown L = False")
      case True
      let ?evs = "pass_trace (log_stream L) ocs (queued L as)"
      from drain_wf [OF w, of ocs] e ATick True
      have "log_stream L' = None" "events L' = events L @ ?evs" using s by auto
      moreover have "\<forall>d m. (d, m) \<in> set (lines ?evs) \<longrightarrow> d = Console"
        using lines_pass_trace_dest [of _ _ None] c by (auto simp: s)
      ultimately show ?thesis by blast
    next
      case False
      with e s ATick show ?thesis by auto
    qed
  qed
  with e w' show ?thesis by blast
qed

lemma run_console:
  assumes "wf_que L as" and "log_stream L = None" and "no_swap acts"
  shows "\<exists>L' evs. run acts L = Some L' \<and> log_stream L' = None \<and>
           events L' = events L @ evs \<and>
           (\<forall>d m. (d, m) \<in> set (lines evs) \<longrightarrow> d = Console)"
  using assms
proof (induction acts arbitrary: L as)
  case Nil
  then show ?case by simp
next
  case (Cons x xs)
  from Cons.prems have nx: "no_swap_action x" and nxs: "no_swap xs"
    by (simp_all add: no_swap_def)
  from exec_console [OF Cons.prems(1,2) nx] obtain L1 as1 evs1 where
    e: "exec x L = Some L1" and w1: "wf_que L1 as1" and s1: "log_stream L1 = None" and
    v1: "events L1 = events L @ evs1" and
    c1: "\<forall>d m. (d, m) \<in> set (lines evs1) \<longrightarrow> d = Console"
    by blast
  from Cons.IH [OF w1 s1 nxs] obtain L2 evs2 where
    r: "run xs L1 = Some L2" and s2: "log_stream L2 = None" and
    v2: "events L2 = events L1 @ evs2" and
    c2: "\<forall>d m. (d, m) \<in> set (lines evs2) \<longrightarrow> d = Console"
    by blast
  have "run (x # xs) L = Some L2" using e r by simp
  moreover have "events L2 = events L @ (evs1 @ evs2)" using v1 v2 by simp
  moreover have "\<forall>d m. (d, m) \<in> set (lines (evs1 @ evs2)) \<longrightarrow> d = Console"
    using c1 c2 by (auto simp: lines_append)
  ultimately show ?case using s2 by blast
qed

text \<open>
  Claim C9.  An \<open>ExitLogger\<close> that finds a worker returns with no worker and with
  \<open>log_stream\<close> null; if there was an open stream, it has been flushed and closed
  during the call.  After that, as long as \<open>SetLogFile\<close> is not called, every line
  that is written (also after a new \<open>StartBackGroundThread\<close>) goes to the console.
\<close>

theorem ExitLogger_clears_stream:
  assumes r: "worker L" and w: "wf_que L as"
  shows "\<exists>L'. ExitLogger ocss L = Some L' \<and> log_stream L' = None \<and> \<not> worker L' \<and>
           (\<exists>evs. events L' = events L @ evs \<and>
              (\<forall>f. log_stream L = Some f \<and> is_open f \<longrightarrow> Closed (fname f) \<in> set evs)) \<and>
           (no_swap acts \<longrightarrow>
              (\<exists>L'' evs. run acts L' = Some L'' \<and> log_stream L'' = None \<and>
                 events L'' = events L' @ evs \<and>
                 (\<forall>d m. (d, m) \<in> set (lines evs) \<longrightarrow> d = Console)))"
proof -
  let ?evs = "pass_trace (log_stream L) (next_pass ocss) (queued L as)
                       @ [Lock_stream] @ close_events (log_stream L) @ [Unlock_stream]"
  let ?L = "L\<lparr>shutdown := True, head := None, nodes := Map.empty, worker := False,
             log_stream := None, events := events L @ ?evs\<rparr>"
  have e: "ExitLogger ocss L = Some ?L" using r w by (rule ExitLogger_wf)
  have 1: "log_stream ?L = None" "\<not> worker ?L" "events ?L = events L @ ?evs" by simp_all
  have 2: "\<forall>f. log_stream L = Some f \<and> is_open f \<longrightarrow> Closed (fname f) \<in> set ?evs"
    by (auto simp: close_events_def)
  have w': "wf_que ?L []" by (simp add: wf_que_Nil)
  have 3: "no_swap acts \<longrightarrow>
              (\<exists>L'' evs. run acts ?L = Some L'' \<and> log_stream L'' = None \<and>
                 events L'' = events ?L @ evs \<and>
                 (\<forall>d m. (d, m) \<in> set (lines evs) \<longrightarrow> d = Console))"
    using run_console [OF w' 1(1), of acts] by blast
  from e 1 2 3 show ?thesis by blast
qed

theorem ExitLogger_clears_stream_witness:
  "worker (StartBackGroundThread (SetLogFile ''log_file0.txt'' True Logger_default)) \<and>
   wf_que (StartBackGroundThread (SetLogFile ''log_file0.txt'' True Logger_default)) [] \<and>
   no_swap [AStart, ALog ''t2'' Info ''m2'', ATick []] \<and>
   (\<exists>L'. ExitLogger [] (StartBackGroundThread (SetLogFile ''log_file0.txt'' True Logger_default))
           = Some L' \<and>
         log_stream L' = None \<and> \<not> worker L' \<and>
         (\<exists>evs. events L' =
                  events (StartBackGroundThread (SetLogFile ''log_file0.txt'' True Logger_default))
                  @ evs \<and>
                Closed ''log_file0.txt'' \<in> set evs) \<and>
         (\<exists>L'' evs. run [AStart, ALog ''t2'' Info ''m2'', ATick []] L' = Some L'' \<and>
            log_stream L'' = None \<and> events L'' = events L' @ evs)) \<and>
   map_option (lines \<circ> events)
     (run [ASetLogFile ''log_file0.txt'' True, AStart, ALog ''t1'' Info ''m1'', AExit [],
           AStart, ALog ''t2'' Info ''m2'', AExit []] Logger_default)
     = Some [(File ''log_file0.txt'', ''t1 Info: m1''), (Console, ''t2 Info: m2'')]"
proof -
  let ?L = "StartBackGroundThread (SetLogFile ''log_file0.txt'' True Logger_default)"
  let ?acts = "[AStart, ALog ''t2'' Info ''m2'', ATick []]"
  have r: "worker ?L"
    by (simp add: StartBackGroundThread_def SetLogFile_frame Logger_default_def)
  have w: "wf_que ?L []"
    by (simp add: wf_que_Nil StartBackGroundThread_def SetLogFile_frame Logger_default_def)
  have n: "no_swap ?acts" by (simp add: no_swap_def)
  have s: "log_stream ?L = Some \<lparr>fname = ''log_file0.txt'', is_open = True\<rparr>"
    by (simp add: StartBackGroundThread_def SetLogFile_def Let_def release_def emit_def
          Logger_default_def)
  from ExitLogger_clears_stream [OF r w, of "[]" ?acts] obtain L' evs where
    1: "ExitLogger [] ?L = Some L'" "log_stream L' = None" "\<not> worker L'"
       "events L' = events ?L @ evs" and
    2: "\<forall>f. log_stream ?L = Some f \<and> is_open f \<longrightarrow> Closed (fname f) \<in> set evs" and
    3: "no_swap ?acts \<longrightarrow>
          (\<exists>L'' evs. run ?acts L' = Some L'' \<and> log_stream L'' = None \<and>
             events L'' = events L' @ evs \<and>
             (\<forall>d m. (d, m) \<in> set (lines evs) \<longrightarrow> d = Console))"
    by blast
  from 2 s have 4: "Closed ''log_file0.txt'' \<in> set evs" by simp
  from 3 n obtain L'' evs' where
    5: "run ?acts L' = Some L''" "log_stream L'' = None" "events L'' = events L' @ evs'"
    by blast
  have 6: "map_option (lines \<circ> events)
     (run [ASetLogFile ''log_file0.txt'' True, AStart, ALog ''t1'' Info ''m1'', AExit [],
           AStart, ALog ''t2'' Info ''m2'', AExit []] Logger_default)
     = Some [(File ''log_file0.txt'', ''t1 Info: m1''), (Console, ''t2 Info: m2'')]"
    by code_simp
  from r w n 1 4 5 6 show ?thesis by blast
qed


subsection \<open>The threshold\<close>

text \<open>
  Claim C5.  For a level from \<open>Trace\<close> to \<open>Error\<close> and a non-empty text, \<open>Log\<close>
  pushes the record if the level is at least \<open>current_level\<close> (the boundary
  included) and does nothing if it is below: a node is allocated exactly in the first
  case, and the next pass writes what was in the stack before, followed by the new line
  exactly in the first case.  \<open>current_level\<close> is the level the constructor was given.
\<close>

theorem Log_threshold:
  assumes v: "Trace \<le> level" "level \<le> Error" "msg \<noteq> []" and w: "wf_que L as"
  shows "(current_level L \<le> level \<longrightarrow>
            Log ts level msg L =
              Some (push (Log_line ts (severity_names ! nat level) msg) L)) \<and>
         (level < current_level L \<longrightarrow> Log ts level msg L = Some L) \<and>
         (\<exists>L1 as1 L2.
            Log ts level msg L = Some L1 \<and> wf_que L1 as1 \<and>
            current_level L1 = current_level L \<and>
            (brk L1 = Suc (brk L)) = (current_level L \<le> level) \<and>
            queued L1 as1 =
              queued L as @ (if current_level L \<le> level
                             then [Log_line ts (severity_names ! nat level) msg] else []) \<and>
            drain ocs L1 = Some L2 \<and>
            events L2 = events L @ pass_trace (log_stream L) ocs (queued L1 as1)) \<and>
         (\<forall>L0. Logger_ctor timeout T = Inr L0 \<longrightarrow> current_level L0 = T)"
proof -
  let ?v = "Log_line ts (severity_names ! nat level) msg"
  have c: "\<forall>L0. Logger_ctor timeout T = Inr L0 \<longrightarrow> current_level L0 = T"
    by (auto simp: Logger_ctor_def split: if_splits)
  show ?thesis
  proof (cases "current_level L \<le> level")
    case True
    let ?L1 = "push ?v L"
    have l: "Log ts level msg L = Some ?L1"
      using v True by (simp add: Log_def severity_to_str_in_range)
    have w1: "wf_que ?L1 (brk L # as)" using w by (rule wf_que_push)
    have q1: "queued ?L1 (brk L # as) = queued L as @ [?v]" using w by (rule queued_push)
    have f: "current_level ?L1 = current_level L" "brk ?L1 = Suc (brk L)"
      "events ?L1 = events L" "log_stream ?L1 = log_stream L"
      by (simp_all add: push_def Let_def)
    from drain_wf_frame [OF w1, of ocs] obtain L2 where
      "drain ocs ?L1 = Some L2"
      "events L2 = events ?L1 @ pass_trace (log_stream ?L1) ocs (queued ?L1 (brk L # as))"
      by blast
    with l w1 q1 f True c show ?thesis by (simp only: if_True) auto
  next
    case False
    have l: "Log ts level msg L = Some L"
      using v False by (simp add: Log_def)
    from drain_wf_frame [OF w, of ocs] obtain L2 where
      "drain ocs L = Some L2"
      "events L2 = events L @ pass_trace (log_stream L) ocs (queued L as)"
      by blast
    with l w False c show ?thesis by (auto intro!: exI [of _ as])
  qed
qed

theorem Log_threshold_witness:
  "Trace \<le> Info \<and> Info \<le> Error \<and> Trace \<le> Debug \<and> Debug \<le> Error \<and> ''m'' \<noteq> [] \<and>
   wf_que (Logger_default\<lparr>current_level := Info\<rparr>) [] \<and>
   Log ''ts'' Info ''m'' (Logger_default\<lparr>current_level := Info\<rparr>) =
     Some (push ''ts Info: m'' (Logger_default\<lparr>current_level := Info\<rparr>)) \<and>
   Log ''ts'' Debug ''m'' (Logger_default\<lparr>current_level := Info\<rparr>) =
     Some (Logger_default\<lparr>current_level := Info\<rparr>)"
proof -
  let ?L = "Logger_default\<lparr>current_level := Info\<rparr>"
  have 1: "Trace \<le> Info" "Info \<le> Error" and 2: "Trace \<le> Debug" "Debug \<le> Error"
    by (simp_all add: Severity_defs)
  have 3: "''m'' \<noteq> []" by simp
  have w: "wf_que ?L []" by (simp add: wf_que_Nil Logger_default_def)
  have a: "current_level ?L \<le> Info" and b: "Debug < current_level ?L"
    by (simp_all add: Severity_defs)
  have s: "Log_line ''ts'' (severity_names ! nat Info) ''m'' = ''ts Info: m''"
    by (simp add: Log_line_def severity_names_def Info_def)
  from Log_threshold [OF 1 3 w, of "''ts''" "[]" 0 Info] a
  have 4: "Log ''ts'' Info ''m'' ?L = Some (push ''ts Info: m'' ?L)"
    by (simp only: s)
  from Log_threshold [OF 2 3 w, of "''ts''" "[]" 0 Info] b
  have 5: "Log ''ts'' Debug ''m'' ?L = Some ?L" by blast
  from 1 2 3 w 4 5 show ?thesis by (intro conjI)
qed

end
